theory Spec2Isabelle
  imports Main "HOL-Library.Word"
begin

unbundle bit_operations_syntax

section \<open>Data model\<close>

text \<open>
  The codec of \<^verbatim>\<open>ITBase64.c\<close> works on two kinds of buffers: raw data
  (\<^verbatim>\<open>uint8_t\<close>) and text (\<^verbatim>\<open>char\<close>). Both are 8-bit integers in C, so both
  are 8-bit words here. A buffer handed over as a pointer with a length is the list of
  the bytes it holds. Character constants of the source are written through
  \<open>of_char\<close>, so that \<open>of_char CHR ''A''\<close> is the byte 65. The range tests of
  \<^verbatim>\<open>charToByte\<close> give the same answer for a signed and for an unsigned
  \<^verbatim>\<open>char\<close>: a byte above 127 lies in none of the ranges either way.

  Lengths and indices are \<^verbatim>\<open>unsigned int\<close>, 32 bits wide: they are natural
  numbers here, and \<open>u32\<close> is written where a sum or a product of the source can
  wrap around. That is the case for the two buffer sizes, \<^verbatim>\<open>resultSize\<close> of the
  encoder and \<^verbatim>\<open>maxLen\<close> of the decoder. The indices stay below the lengths they
  are compared with, and the parameter \<^verbatim>\<open>len\<close> is below \<open>2 ^ 32\<close> by its type.

  The output buffers come from \<^verbatim>\<open>malloc\<close>, which is taken to succeed. A store
  past the end of such a buffer is undefined behaviour in C: the model stops there with
  the outcome \<open>Overrun\<close>. A call that stays inside its buffers has the outcome
  \<open>Returns\<close> with what the function hands back.
\<close>

type_synonym u8 = "8 word"
type_synonym cchar = "8 word"

datatype 'a outcome = Returns 'a | Overrun

definition u32 :: "nat \<Rightarrow> nat" where
  "u32 n = n mod 2 ^ 32"

definition cstr :: "string \<Rightarrow> cchar list" where
  "cstr s = map of_char s"

text \<open>\<^verbatim>\<open>#define isWhiteSpace(c) ((c) == ' ' || (c) == '\t' || (c) == '\r' || (c) == '\n')\<close>\<close>

definition isWhiteSpace :: "cchar \<Rightarrow> bool" where
  "isWhiteSpace c \<longleftrightarrow> c = 0x20 \<or> c = 0x09 \<or> c = 0x0D \<or> c = 0x0A"

definition ITBase64AdditionsEncodingTable :: "cchar list" where
  "ITBase64AdditionsEncodingTable =
     cstr ''ABCDEFGHIJKLMNOPQRSTUVWXYZabcdefghijklmnopqrstuvwxyz0123456789+/''"

section \<open>The word codec\<close>

text \<open>
  \<^verbatim>\<open>encodeWord(bytes, dest, lastWord)\<close> reads \<^verbatim>\<open>bytes[0..2]\<close> and stores
  \<^verbatim>\<open>dest[0..3]\<close> on every path; the model returns the four characters stored.
\<close>

definition encodeWord :: "u8 list \<Rightarrow> bool \<Rightarrow> cchar list" where
  "encodeWord bytes lastWord =
     (let d0 = ITBase64AdditionsEncodingTable ! unat (drop_bit 2 (bytes ! 0 AND 0xFC));
          d1 = ITBase64AdditionsEncodingTable !
                 unat (push_bit 4 (bytes ! 0 AND 0x03) OR drop_bit 4 (bytes ! 1 AND 0xF0));
          d2 = ITBase64AdditionsEncodingTable !
                 unat (push_bit 2 (bytes ! 1 AND 0x0F) OR drop_bit 6 (bytes ! 2 AND 0xC0))
      in if d2 = of_char CHR ''A'' \<and> lastWord
         then [d0, d1, of_char CHR ''='', of_char CHR ''='']
         else let d3 = ITBase64AdditionsEncodingTable ! unat (bytes ! 2 AND 0x3F)
              in if d3 = of_char CHR ''A'' \<and> lastWord
                 then [d0, d1, d2, of_char CHR ''='']
                 else [d0, d1, d2, d3])"

definition charToByte :: "cchar \<Rightarrow> u8" where
  "charToByte c =
     (if of_char CHR ''A'' \<le> c \<and> c \<le> of_char CHR ''Z'' then c - of_char CHR ''A''
      else if of_char CHR ''a'' \<le> c \<and> c \<le> of_char CHR ''z'' then c - of_char CHR ''a'' + 26
      else if of_char CHR ''0'' \<le> c \<and> c \<le> of_char CHR ''9'' then c - of_char CHR ''0'' + 52
      else if c = of_char CHR ''+'' then 62
      else if c = of_char CHR ''/'' then 63
      else if c = of_char CHR ''='' then 0
      else 0xff)"

text \<open>
  \<^verbatim>\<open>decodeWord(chars, dest)\<close> returns the number of bytes decoded and stores into
  \<^verbatim>\<open>dest[0..]\<close> as it goes. The model returns the count together with the bytes
  stored so far, in order; a byte can have been stored before an error is found, and then
  the count is 0.
\<close>

definition decodeWord :: "cchar list \<Rightarrow> nat \<times> u8 list" where
  "decodeWord chars =
     (let c0 = charToByte (chars ! 0);
          c1 = charToByte (chars ! 1)
      in if c0 = 0xff \<or> c1 = 0xff then (0, [])
         else let b0 = push_bit 2 c0 OR drop_bit 4 (c1 AND 0x30)
              in if chars ! 2 = of_char CHR ''='' then (1, [b0])
                 else let c2 = charToByte (chars ! 2)
                      in if c2 = 0xff then (0, [b0])
                         else let b1 = push_bit 4 (c1 AND 0x0f) OR drop_bit 2 (c2 AND 0x3c)
                              in if chars ! 3 = of_char CHR ''='' then (2, [b0, b1])
                                 else let c3 = charToByte (chars ! 3)
                                      in if c3 = 0xff then (0, [b0, b1])
                                         else (3, [b0, b1, push_bit 6 (c2 AND 0x03) OR c3]))"

section \<open>The whitespace filter\<close>

text \<open>
  \<^verbatim>\<open>whiteSpaceFreeStringCreate\<close> copies the characters that are not whitespace,
  in order; its return value \<^verbatim>\<open>resultLen\<close> is the length of the copy.
\<close>

fun whiteSpaceFreeStringCreate :: "cchar list \<Rightarrow> cchar list" where
  "whiteSpaceFreeStringCreate [] = []"
| "whiteSpaceFreeStringCreate (c # str) =
     (if \<not> isWhiteSpace c then c # whiteSpaceFreeStringCreate str
      else whiteSpaceFreeStringCreate str)"

section \<open>The encoder\<close>

text \<open>
  The \<^verbatim>\<open>while (srcIndex < effLen)\<close> loop: one full word per round. \<open>dest\<close> is
  the part of the output buffer stored so far, so \<^verbatim>\<open>destIndex\<close> is its length;
  \<open>capacity\<close> is the number of characters allocated. A round stores the four
  characters \<^verbatim>\<open>dest[destIndex .. destIndex + 3]\<close>.
\<close>

function encode_loop ::
  "u8 list \<Rightarrow> nat \<Rightarrow> nat \<Rightarrow> nat \<Rightarrow> cchar list \<Rightarrow> cchar list outcome" where
  "encode_loop ptr effLen capacity srcIndex dest =
     (if srcIndex < effLen
      then if length dest + 4 > capacity then Overrun
           else encode_loop ptr effLen capacity (srcIndex + 3)
                  (dest @ encodeWord (drop srcIndex ptr) False)
      else Returns dest)"
  by pat_completeness auto
termination
  by (relation "measure (\<lambda>(ptr, effLen, capacity, srcIndex, dest). effLen - srcIndex)") auto

declare encode_loop.simps [simp del]

text \<open>
  \<^verbatim>\<open>ITBase64EncodedStringCreate(data, len, stringLength)\<close>: \<^verbatim>\<open>resultSize\<close> is
  computed in \<^verbatim>\<open>unsigned int\<close> and \<^verbatim>\<open>resultSize + 1\<close> characters are
  allocated. The last word is stored at \<^verbatim>\<open>dest[resultSize - 4]\<close>, an index that
  wraps around when \<^verbatim>\<open>resultSize\<close> is below 4, and the terminator at
  \<^verbatim>\<open>dest[resultSize]\<close>. The result is the buffer returned, up to and including
  the terminator, and the value stored in \<^verbatim>\<open>*stringLength\<close>.
\<close>

definition ITBase64EncodedStringCreate :: "u8 list \<Rightarrow> (cchar list \<times> nat) outcome" where
  "ITBase64EncodedStringCreate data =
     (let len = length data;
          resultSize = u32 ((len div 3 + (if len mod 3 \<noteq> 0 then 1 else 0)) * 4);
          restLen = len mod 3;
          effLen = len - restLen
      in case encode_loop data effLen (resultSize + 1) 0 [] of
           Overrun \<Rightarrow> Overrun
         | Returns dest \<Rightarrow>
             if restLen \<noteq> 0
             then let restWord = take restLen (drop effLen data) @ replicate (3 - restLen) 0
                  in if resultSize < 4 then Overrun
                     else Returns (take (resultSize - 4) dest @ encodeWord restWord True @ [0],
                                   resultSize)
             else Returns (take resultSize dest @ [0], resultSize))"

section \<open>The decoder\<close>

text \<open>
  The \<^verbatim>\<open>while (srcIndex < effLen)\<close> loop of the decoder. \<open>dest\<close> is the part of
  the output buffer stored so far and \<open>maxLen\<close> the number of bytes allocated. The
  word decoder stores at \<^verbatim>\<open>dest[destIndex]\<close> and after it, one byte for each
  element of \<open>stored\<close>. The result is \<^verbatim>\<open>destIndex\<close>, \<^verbatim>\<open>bytesDecoded\<close>
  and the buffer when the loop is left.
\<close>

function decode_loop ::
  "cchar list \<Rightarrow> nat \<Rightarrow> nat \<Rightarrow> nat \<Rightarrow> nat \<Rightarrow> u8 list
     \<Rightarrow> (nat \<times> nat \<times> u8 list) outcome" where
  "decode_loop characters maxLen srcIndex destIndex bytesDecoded dest =
     (if srcIndex < length characters
      then (case decodeWord (drop srcIndex characters) of
              (n, stored) \<Rightarrow>
                if destIndex + length stored > maxLen then Overrun
                else if n < 3 then Returns (destIndex, n, dest @ stored)
                else decode_loop characters maxLen (srcIndex + 4) (destIndex + 3) n
                       (dest @ stored))
      else Returns (destIndex, bytesDecoded, dest))"
  by pat_completeness auto
termination
  by (relation "measure (\<lambda>(characters, maxLen, srcIndex, destIndex, bytesDecoded, dest).
        length characters - srcIndex)") auto

declare decode_loop.simps [simp del]

text \<open>
  \<^verbatim>\<open>ITBase64DecodedDataCreate(string, len, dataLength)\<close>: the product in
  \<^verbatim>\<open>maxLen = 3 * effLen / 4\<close> is computed in \<^verbatim>\<open>unsigned int\<close>, and
  \<^verbatim>\<open>maxLen\<close> bytes are allocated after the test of the length. The result is the
  pointer returned (\<open>None\<close> for \<^verbatim>\<open>NULL\<close>, otherwise the \<^verbatim>\<open>*dataLength\<close>
  bytes of the buffer) and the value stored in \<^verbatim>\<open>*dataLength\<close>.
\<close>

definition ITBase64DecodedDataCreate :: "cchar list \<Rightarrow> (u8 list option \<times> nat) outcome" where
  "ITBase64DecodedDataCreate string =
     (let characters = whiteSpaceFreeStringCreate string;
          effLen = length characters;
          maxLen = u32 (3 * effLen) div 4
      in if effLen mod 4 \<noteq> 0 then Returns (None, 0)
         else case decode_loop characters maxLen 0 0 0 [] of
                Overrun \<Rightarrow> Overrun
              | Returns (destIndex, bytesDecoded, dest) \<Rightarrow>
                  if bytesDecoded > 0 \<and> bytesDecoded < 3
                  then Returns (Some (take (destIndex + bytesDecoded) dest),
                                destIndex + bytesDecoded)
                  else if bytesDecoded = 0 then Returns (None, 0)
                  else Returns (Some (take destIndex dest), destIndex))"

text \<open>
  Encoding and then decoding, as a caller does it: the text handed to the decoder is the
  buffer of the encoder without its terminator, with the length the encoder reported.
\<close>

definition roundtrip :: "u8 list \<Rightarrow> (u8 list option \<times> nat) outcome" where
  "roundtrip b =
     (case ITBase64EncodedStringCreate b of
        Overrun \<Rightarrow> Overrun
      | Returns (dest, stringLength) \<Rightarrow> ITBase64DecodedDataCreate (take stringLength dest))"

text \<open>
  The groups of the compacted text as the decoder's loop sees them: round \<open>k\<close> of the
  loop calls \<^verbatim>\<open>decodeWord(&characters[4 * k], ...)\<close>. \<open>group_yield\<close> is the count
  that call returns, \<open>group_bytes\<close> the bytes it stores.
\<close>

definition group_yield :: "cchar list \<Rightarrow> nat \<Rightarrow> nat" where
  "group_yield characters k = fst (decodeWord (drop (4 * k) characters))"

definition group_bytes :: "cchar list \<Rightarrow> nat \<Rightarrow> u8 list" where
  "group_bytes characters k = snd (decodeWord (drop (4 * k) characters))"

section \<open>The word decoder as the specification words it\<close>

text \<open>
  The alphabet is the encoding table; the value of a symbol is its position in the table,
  the padding character has the value 0, and every other character has the invalid
  value \<^verbatim>\<open>0xff\<close>.
\<close>

fun position :: "'a list \<Rightarrow> 'a \<Rightarrow> nat" where
  "position [] c = 0"
| "position (x # xs) c = (if x = c then 0 else Suc (position xs c))"

definition symbol_value :: "cchar \<Rightarrow> u8" where
  "symbol_value c =
     (if c \<in> set ITBase64AdditionsEncodingTable
      then of_nat (position ITBase64AdditionsEncodingTable c)
      else if c = of_char CHR ''='' then 0 else 0xff)"

definition invalid_symbol :: "cchar \<Rightarrow> bool" where
  "invalid_symbol c \<longleftrightarrow> c \<notin> set ITBase64AdditionsEncodingTable \<and> c \<noteq> of_char CHR ''=''"

text \<open>
  The steps of the word decoder in the order the specification gives them, with the
  values \<open>v0\<close> to \<open>v3\<close> of the four characters and the shifts without masks.
\<close>

definition decodeWord_spec :: "cchar list \<Rightarrow> nat \<times> u8 list" where
  "decodeWord_spec chars =
     (let v0 = symbol_value (chars ! 0); v1 = symbol_value (chars ! 1);
          v2 = symbol_value (chars ! 2); v3 = symbol_value (chars ! 3);
          byte0 = push_bit 2 v0 OR drop_bit 4 v1;
          byte1 = push_bit 4 (v1 AND 0x0F) OR drop_bit 2 v2;
          byte2 = push_bit 6 (v2 AND 0x03) OR v3
      in if invalid_symbol (chars ! 0) \<or> invalid_symbol (chars ! 1) then (0, [])
         else if chars ! 2 = of_char CHR ''='' then (1, [byte0])
         else if invalid_symbol (chars ! 2) then (0, [byte0])
         else if chars ! 3 = of_char CHR ''='' then (2, [byte0, byte1])
         else if invalid_symbol (chars ! 3) then (0, [byte0, byte1])
         else (3, [byte0, byte1, byte2]))"

section \<open>Inserting whitespace\<close>

text \<open>
  \<open>ws_inserted t t'\<close>: the text \<open>t'\<close> is \<open>t\<close> with whitespace characters inserted
  at any positions, any number of them.
\<close>

inductive ws_inserted :: "cchar list \<Rightarrow> cchar list \<Rightarrow> bool" where
  ws_done: "ws_inserted [] []"
| ws_keep: "ws_inserted t t' \<Longrightarrow> ws_inserted (c # t) (c # t')"
| ws_insert: "isWhiteSpace w \<Longrightarrow> ws_inserted t t' \<Longrightarrow> ws_inserted t (w # t')"

code_pred ws_inserted .

section \<open>Evaluation\<close>

lemmas codec_defs =
  ITBase64DecodedDataCreate_def ITBase64EncodedStringCreate_def roundtrip_def
  cstr_def isWhiteSpace_def decode_loop.simps encode_loop.simps decodeWord_def
  encodeWord_def charToByte_def ITBase64AdditionsEncodingTable_def
  group_yield_def group_bytes_def u32_def

text \<open>The word decoder looks at its characters only through these four values.\<close>

lemma decodeWord_cong:
  assumes "charToByte (xs ! 0) = charToByte (ys ! 0)" "charToByte (xs ! 1) = charToByte (ys ! 1)"
    "xs ! 2 = ys ! 2" "xs ! 3 = ys ! 3"
  shows "decodeWord xs = decodeWord ys"
  unfolding decodeWord_def by (simp only: assms)

section \<open>The padding character in the inverse lookup\<close>

text \<open>
  Claim C10. \<^verbatim>\<open>charToByte\<close> maps \<^verbatim>\<open>'='\<close> to 0 and not to the error value
  \<^verbatim>\<open>0xff\<close>. So the word decoder treats a \<^verbatim>\<open>'='\<close> in position 0 or 1 of a
  group exactly as it treats \<^verbatim>\<open>'A'\<close>, the symbol of the value 0, and decoding the
  text \<^verbatim>\<open>"===="\<close> succeeds with the single byte 0 and the reported length 1.
\<close>

theorem charToByte_pad_accepted:
  "charToByte (of_char CHR ''='') = 0
   \<and> charToByte (of_char CHR ''='') \<noteq> 0xff
   \<and> decodeWord (of_char CHR ''='' # rest) = decodeWord (of_char CHR ''A'' # rest)
   \<and> decodeWord (c # of_char CHR ''='' # rest) = decodeWord (c # of_char CHR ''A'' # rest)
   \<and> decodeWord (cstr ''===='') = (1, [0])
   \<and> ITBase64DecodedDataCreate (cstr ''===='') = Returns (Some [0], 1)"
proof -
  have 1: "decodeWord (of_char CHR ''='' # rest) = decodeWord (of_char CHR ''A'' # rest)"
    by (rule decodeWord_cong) (simp_all add: charToByte_def)
  have 2: "decodeWord (c # of_char CHR ''='' # rest) = decodeWord (c # of_char CHR ''A'' # rest)"
    by (rule decodeWord_cong) (simp_all add: charToByte_def)
  have 3: "decodeWord (cstr ''===='') = (1, [0])"
    by (simp add: decodeWord_def cstr_def charToByte_def)
  have 4: "ITBase64DecodedDataCreate (cstr ''===='') = Returns (Some [0], 1)"
    by (simp add: codec_defs)
  have 5: "charToByte (of_char CHR ''='') = 0"
    by (simp add: charToByte_def)
  show ?thesis using 1 2 3 4 5 by simp
qed

section \<open>The alphabet table and its inverse\<close>

text \<open>A property of all 256 bytes is checked byte by byte.\<close>

lemma u8_all: "(\<forall>c::8 word. P c) \<longleftrightarrow> list_all P (map of_nat [0..<256])"
proof
  assume "\<forall>c. P c" then show "list_all P (map of_nat [0..<256])" by (simp add: list_all_iff)
next
  assume a: "list_all P (map of_nat [0..<256])"
  show "\<forall>c. P c"
  proof
    fix c :: "8 word"
    have "unat c < 256" using unsigned_less [of c, where ?'a = nat] by simp
    then have "of_nat (unat c) \<in> (of_nat :: nat \<Rightarrow> 8 word) ` {0..<256}"
      by (intro imageI) simp
    then have "c \<in> set (map (of_nat :: nat \<Rightarrow> 8 word) [0..<256])" by simp
    with a show "P c" by (auto simp: list_all_iff)
  qed
qed

lemma charToByte_cases:
  "charToByte c = 0xff \<or>
   (charToByte c < 64 \<and> (c = of_char CHR ''='' \<or> ITBase64AdditionsEncodingTable ! unat (charToByte c) = c))"
proof -
  have "\<forall>c. charToByte c = 0xff \<or>
   (charToByte c < 64 \<and> (c = of_char CHR ''='' \<or> ITBase64AdditionsEncodingTable ! unat (charToByte c) = c))"
    unfolding u8_all by code_simp
  then show ?thesis by blast
qed

lemma charToByte_table:
  "v < 64 \<Longrightarrow> charToByte (ITBase64AdditionsEncodingTable ! unat v) = v
     \<and> ITBase64AdditionsEncodingTable ! unat v \<noteq> of_char CHR ''=''
     \<and> ITBase64AdditionsEncodingTable ! unat v \<noteq> 0"
proof -
  have "\<forall>v. v < 64 \<longrightarrow> charToByte (ITBase64AdditionsEncodingTable ! unat v) = v
     \<and> ITBase64AdditionsEncodingTable ! unat v \<noteq> of_char CHR ''=''
     \<and> ITBase64AdditionsEncodingTable ! unat v \<noteq> 0"
    unfolding u8_all by code_simp
  then show "v < 64 \<Longrightarrow> ?thesis" by blast
qed

lemma six_bit_shifts:
  "(v :: u8) < 64 \<Longrightarrow> drop_bit 4 (v AND 0x30) = drop_bit 4 v \<and> drop_bit 2 (v AND 0x3c) = drop_bit 2 v"
proof -
  have "\<forall>v :: u8. v < 64 \<longrightarrow> drop_bit 4 (v AND 0x30) = drop_bit 4 v \<and> drop_bit 2 (v AND 0x3c) = drop_bit 2 v"
    unfolding u8_all by code_simp
  then show "v < 64 \<Longrightarrow> ?thesis" by blast
qed

lemma length_table: "length ITBase64AdditionsEncodingTable = 64"
  by (simp add: ITBase64AdditionsEncodingTable_def cstr_def)

lemma distinct_table: "distinct ITBase64AdditionsEncodingTable"
  by (simp add: ITBase64AdditionsEncodingTable_def cstr_def)

lemma position_nth: "distinct xs \<Longrightarrow> i < length xs \<Longrightarrow> position xs (xs ! i) = i"
proof (induction xs arbitrary: i)
  case Nil
  then show ?case by simp
next
  case (Cons x xs)
  show ?case
  proof (cases i)
    case 0
    then show ?thesis by simp
  next
    case (Suc j)
    with Cons.prems have "xs ! j \<in> set xs" "x \<notin> set xs" by simp_all
    then have "x \<noteq> xs ! j" by blast
    with Suc Cons show ?thesis by simp
  qed
qed

lemma in_table_iff:
  "c \<in> set ITBase64AdditionsEncodingTable \<longleftrightarrow>
   (\<exists>v::u8. v < 64 \<and> c = ITBase64AdditionsEncodingTable ! unat v)"
proof
  assume "c \<in> set ITBase64AdditionsEncodingTable"
  then obtain i where i: "i < 64" "ITBase64AdditionsEncodingTable ! i = c"
    by (auto simp: in_set_conv_nth length_table)
  have u: "unat (of_nat i :: u8) = i" using i(1) by (simp add: unat_of_nat)
  then have "(of_nat i :: u8) < 64" using i(1) by (simp add: word_less_nat_alt)
  with u i(2) show "\<exists>v::u8. v < 64 \<and> c = ITBase64AdditionsEncodingTable ! unat v" by metis
next
  assume "\<exists>v::u8. v < 64 \<and> c = ITBase64AdditionsEncodingTable ! unat v"
  then obtain v :: u8 where v: "v < 64" "c = ITBase64AdditionsEncodingTable ! unat v" by blast
  from v(1) have "unat v < 64" by (simp add: word_less_nat_alt)
  with v(2) show "c \<in> set ITBase64AdditionsEncodingTable" by (simp add: length_table)
qed

lemma pad_not_in_table: "of_char CHR ''='' \<notin> set ITBase64AdditionsEncodingTable"
  using charToByte_table by (auto simp: in_table_iff)

lemma charToByte_invalid: "charToByte c = 0xff \<longleftrightarrow> invalid_symbol c"
proof
  assume a: "charToByte c = 0xff"
  have "c \<notin> set ITBase64AdditionsEncodingTable"
  proof
    assume "c \<in> set ITBase64AdditionsEncodingTable"
    then obtain v :: u8 where v: "v < 64" "c = ITBase64AdditionsEncodingTable ! unat v"
      by (auto simp: in_table_iff)
    then have "charToByte c = v" using charToByte_table by blast
    with a v(1) show False by simp
  qed
  moreover have "c \<noteq> of_char CHR ''=''" using a by (auto simp: charToByte_def)
  ultimately show "invalid_symbol c" by (simp add: invalid_symbol_def)
next
  assume a: "invalid_symbol c"
  show "charToByte c = 0xff"
  proof (rule ccontr)
    assume "charToByte c \<noteq> 0xff"
    with charToByte_cases [of c] a
    have v: "charToByte c < 64" "ITBase64AdditionsEncodingTable ! unat (charToByte c) = c"
      by (auto simp: invalid_symbol_def)
    then have "c \<in> set ITBase64AdditionsEncodingTable" by (auto simp: in_table_iff)
    with a show False by (simp add: invalid_symbol_def)
  qed
qed

lemma charToByte_symbol_value: "charToByte c = symbol_value c"
proof (cases "c \<in> set ITBase64AdditionsEncodingTable")
  case True
  then obtain v :: u8 where v: "v < 64" "c = ITBase64AdditionsEncodingTable ! unat v"
    by (auto simp: in_table_iff)
  then have cv: "charToByte c = v" using charToByte_table by blast
  from v(1) have "unat v < length ITBase64AdditionsEncodingTable"
    by (simp add: word_less_nat_alt length_table)
  then have "position ITBase64AdditionsEncodingTable c = unat v"
    unfolding v(2) by (rule position_nth [OF distinct_table])
  with True cv show ?thesis by (simp add: symbol_value_def)
next
  case False
  show ?thesis
  proof (cases "c = of_char CHR ''=''")
    case True
    with False show ?thesis by (simp add: symbol_value_def charToByte_def)
  next
    case ne: False
    with False have "invalid_symbol c" by (simp add: invalid_symbol_def)
    then have "charToByte c = 0xff" by (simp add: charToByte_invalid)
    with False ne show ?thesis by (simp add: symbol_value_def)
  qed
qed

section \<open>The word decoder\<close>

text \<open>
  Claim C9. On any four characters the word decoder of the source returns the count
  and stores the bytes that the specification describes: 0 bytes when position 0 or 1
  holds a character that is neither in the alphabet nor \<^verbatim>\<open>'='\<close>; otherwise
  \<open>byte0 = (v0 << 2) | (v1 >> 4)\<close> is stored and the count is 1 when
  \<^verbatim>\<open>chars[2]\<close> is \<^verbatim>\<open>'='\<close>, whatever \<^verbatim>\<open>chars[3]\<close> is; otherwise 0 when
  \<^verbatim>\<open>chars[2]\<close> is invalid; otherwise \<open>byte1 = ((v1 & 0x0F) << 4) | (v2 >> 2)\<close> is
  stored and the count is 2 when \<^verbatim>\<open>chars[3]\<close> is \<^verbatim>\<open>'='\<close>; otherwise 0 when
  \<^verbatim>\<open>chars[3]\<close> is invalid; otherwise \<open>byte2 = ((v2 & 0x03) << 6) | v3\<close> is stored
  and the count is 3. The masks \<^verbatim>\<open>0x30\<close> and \<^verbatim>\<open>0x3c\<close> of the source change
  nothing, since a valid value is below 64.
\<close>

theorem decodeWord_refines_spec: "decodeWord chars = decodeWord_spec chars"
proof -
  have r: "charToByte (chars ! i) \<noteq> 0xff \<Longrightarrow> charToByte (chars ! i) < 64" for i
    using charToByte_cases by blast
  have s1: "charToByte (chars ! 1) \<noteq> 0xff \<Longrightarrow>
      drop_bit 4 (charToByte (chars ! 1) AND 0x30) = drop_bit 4 (charToByte (chars ! 1))"
    using six_bit_shifts r by blast
  have s2: "charToByte (chars ! 2) \<noteq> 0xff \<Longrightarrow>
      drop_bit 2 (charToByte (chars ! 2) AND 0x3c) = drop_bit 2 (charToByte (chars ! 2))"
    using six_bit_shifts r by blast
  show ?thesis
    unfolding decodeWord_def decodeWord_spec_def Let_def
      charToByte_symbol_value [symmetric] charToByte_invalid [symmetric]
    using s1 s2 by simp
qed

theorem decodeWord_refines_spec_witness:
  "decodeWord (cstr ''TWE='') = decodeWord_spec (cstr ''TWE='')
   \<and> decodeWord (cstr ''TWE='') = (2, [0x4D, 0x61])
   \<and> decodeWord (cstr ''TQ=!'') = (1, [0x4D])
   \<and> decodeWord (cstr ''TW!u'') = (0, [0x4D])"
proof -
  have "decodeWord (cstr ''TWE='') = (2, [0x4D, 0x61])"
    and "decodeWord (cstr ''TQ=!'') = (1, [0x4D])"
    and "decodeWord (cstr ''TW!u'') = (0, [0x4D])"
    by (simp_all add: decodeWord_def cstr_def charToByte_def)
  with decodeWord_refines_spec [of "cstr ''TWE=''"] show ?thesis by simp
qed

section \<open>Whitespace\<close>

lemma whiteSpaceFreeStringCreate_filter:
  "whiteSpaceFreeStringCreate str = filter (\<lambda>c. \<not> isWhiteSpace c) str"
  by (induction str) simp_all

lemma ws_inserted_stripped:
  "ws_inserted t t' \<Longrightarrow> whiteSpaceFreeStringCreate t' = whiteSpaceFreeStringCreate t"
  by (induction rule: ws_inserted.induct) simp_all

lemma decode_stripped:
  "whiteSpaceFreeStringCreate s = whiteSpaceFreeStringCreate t \<Longrightarrow>
   ITBase64DecodedDataCreate s = ITBase64DecodedDataCreate t"
  by (simp add: ITBase64DecodedDataCreate_def)

text \<open>
  Claim C8. The decoder looks at its text only after the whitespace filter, so a text
  \<open>t'\<close> obtained from a text \<open>t\<close> by inserting spaces, tabs, carriage returns and
  newlines anywhere decodes to the same result as \<open>t\<close>; so does \<^verbatim>\<open>"TWF\nu"\<close>,
  which decodes as \<^verbatim>\<open>"TWFu"\<close> does.
\<close>

theorem decode_ignores_whitespace:
  "ws_inserted t t' \<Longrightarrow> ITBase64DecodedDataCreate t' = ITBase64DecodedDataCreate t"
  by (rule decode_stripped) (rule ws_inserted_stripped)

theorem decode_ignores_whitespace_witness:
  "ws_inserted (cstr ''TWFu'') (cstr ''TWF'' @ [0x0A] @ cstr ''u'')
   \<and> ITBase64DecodedDataCreate (cstr ''TWF'' @ [0x0A] @ cstr ''u'')
       = ITBase64DecodedDataCreate (cstr ''TWFu'')
   \<and> ITBase64DecodedDataCreate (cstr ''TWFu'') = Returns (Some [0x4D, 0x61, 0x6E], 3)"
proof -
  have w: "ws_inserted (cstr ''TWFu'') (cstr ''TWF'' @ [0x0A] @ cstr ''u'')"
    by (simp add: cstr_def isWhiteSpace_def ws_inserted.intros)
  have v: "ITBase64DecodedDataCreate (cstr ''TWFu'') = Returns (Some [0x4D, 0x61, 0x6E], 3)"
    by (simp add: codec_defs)
  from w v decode_ignores_whitespace [OF w] show ?thesis by simp
qed

section \<open>Texts the decoder rejects or cuts short\<close>

text \<open>
  Claim C6. A text whose length after whitespace removal is positive and not a multiple
  of 4 is rejected: the decoder returns \<^verbatim>\<open>NULL\<close> and reports the length 0.
\<close>

theorem decode_invalid_length:
  "0 < length (whiteSpaceFreeStringCreate string)
   \<Longrightarrow> length (whiteSpaceFreeStringCreate string) mod 4 \<noteq> 0
   \<Longrightarrow> ITBase64DecodedDataCreate string = Returns (None, 0)"
  by (simp add: ITBase64DecodedDataCreate_def)

theorem decode_invalid_length_witness:
  "0 < length (whiteSpaceFreeStringCreate (cstr ''=''))
   \<and> length (whiteSpaceFreeStringCreate (cstr ''='')) mod 4 \<noteq> 0
   \<and> ITBase64DecodedDataCreate (cstr ''='') = Returns (None, 0)
   \<and> ITBase64DecodedDataCreate (cstr ''TWFuT'') = Returns (None, 0)"
proof -
  have a: "0 < length (whiteSpaceFreeStringCreate (cstr ''=''))"
    and b: "length (whiteSpaceFreeStringCreate (cstr ''='')) mod 4 \<noteq> 0"
    by (simp_all add: cstr_def isWhiteSpace_def)
  have c: "0 < length (whiteSpaceFreeStringCreate (cstr ''TWFuT''))"
    and d: "length (whiteSpaceFreeStringCreate (cstr ''TWFuT'')) mod 4 \<noteq> 0"
    by (simp_all add: cstr_def isWhiteSpace_def)
  from a b decode_invalid_length [OF a b] decode_invalid_length [OF c d] show ?thesis by simp
qed

text \<open>
  Claim C4. Decoding the empty text, or a text of whitespace only, does not produce an
  empty buffer: the loop is never entered, \<^verbatim>\<open>bytesDecoded\<close> keeps its initial
  value 0 and the branch marked \<^verbatim>\<open>// error\<close> is taken, so the decoder returns
  \<^verbatim>\<open>NULL\<close> with the length 0, exactly what it returns for the corrupt text
  \<^verbatim>\<open>"TWF!"\<close>.
\<close>

theorem decode_empty_is_failure:
  "whiteSpaceFreeStringCreate string = []
   \<Longrightarrow> ITBase64DecodedDataCreate string = Returns (None, 0)"
  by (simp add: ITBase64DecodedDataCreate_def decode_loop.simps)

theorem decode_empty_is_failure_witness:
  "whiteSpaceFreeStringCreate [] = []
   \<and> ITBase64DecodedDataCreate [] = Returns (None, 0)
   \<and> whiteSpaceFreeStringCreate (cstr '' '' @ [0x09, 0x0D, 0x0A]) = []
   \<and> ITBase64DecodedDataCreate (cstr '' '' @ [0x09, 0x0D, 0x0A]) = Returns (None, 0)
   \<and> ITBase64DecodedDataCreate (cstr ''TWF!'') = Returns (None, 0)"
proof -
  have a: "whiteSpaceFreeStringCreate [] = []" by simp
  have b: "whiteSpaceFreeStringCreate (cstr '' '' @ [0x09, 0x0D, 0x0A]) = []"
    by (simp add: cstr_def isWhiteSpace_def)
  have c: "ITBase64DecodedDataCreate (cstr ''TWF!'') = Returns (None, 0)"
    by (simp add: codec_defs)
  from a b c decode_empty_is_failure [OF a] decode_empty_is_failure [OF b] show ?thesis by simp
qed

text \<open>
  The text \<^verbatim>\<open>"TQ==TWFu"\<close> has two groups; the first one is padded and yields one
  byte. The decoder does not fail: it returns that byte and never looks at the second
  group.
\<close>

theorem decode_early_padding_counterexample:
  "whiteSpaceFreeStringCreate (cstr ''TQ==TWFu'') = cstr ''TQ==TWFu''
   \<and> length (cstr ''TQ==TWFu'') = 8
   \<and> group_yield (cstr ''TQ==TWFu'') 0 = 1
   \<and> group_yield (cstr ''TQ==TWFu'') 1 = 3
   \<and> ITBase64DecodedDataCreate (cstr ''TQ==TWFu'') = Returns (Some [0x4D], 1)"
  by (simp add: codec_defs)

section \<open>The decoder's loop\<close>

lemma decodeWord_stored:
  "fst (decodeWord chars) = n \<Longrightarrow> 0 < n \<Longrightarrow> length (snd (decodeWord chars)) = n"
  by (auto simp: decodeWord_def Let_def split: if_splits)

lemma decodeWord_stored_le: "length (snd (decodeWord chars)) \<le> 3"
  by (simp add: decodeWord_def Let_def)

lemma group_bytes_length:
  "group_yield characters k = n \<Longrightarrow> 0 < n \<Longrightarrow> length (group_bytes characters k) = n"
  by (simp add: group_bytes_def group_yield_def decodeWord_stored)

text \<open>A round on a full group moves on to the next group.\<close>

lemma decode_loop_step:
  assumes "group_yield characters i = 3" "4 * i < length characters"
    and "destIndex + 3 \<le> maxLen"
  shows "decode_loop characters maxLen (4 * i) destIndex bytesDecoded dest =
         decode_loop characters maxLen (4 * Suc i) (destIndex + 3) 3
           (dest @ group_bytes characters i)"
proof -
  have w: "decodeWord (drop (4 * i) characters) = (3, group_bytes characters i)"
    using assms(1) by (simp add: group_yield_def group_bytes_def prod_eq_iff)
  have "length (group_bytes characters i) = 3"
    using assms(1) by (simp add: group_bytes_length)
  with w assms(2,3) show ?thesis
    by (subst decode_loop.simps) (simp add: add.commute)
qed

text \<open>A round on a group that yields fewer than 3 bytes leaves the loop.\<close>

lemma decode_loop_break:
  assumes "group_yield characters i < 3" "4 * i < length characters"
    and "destIndex + length (group_bytes characters i) \<le> maxLen"
  shows "decode_loop characters maxLen (4 * i) destIndex bytesDecoded dest =
         Returns (destIndex, group_yield characters i, dest @ group_bytes characters i)"
proof -
  have "decodeWord (drop (4 * i) characters) = (group_yield characters i, group_bytes characters i)"
    by (simp add: group_yield_def group_bytes_def)
  with assms show ?thesis
    by (subst decode_loop.simps) simp
qed


lemma decode_loop_full_groups:
  assumes "\<forall>j<k. group_yield characters (i + j) = 3" "4 * (i + k) \<le> length characters"
    and "destIndex + 3 * k \<le> maxLen"
  shows "decode_loop characters maxLen (4 * i) destIndex bytesDecoded dest =
         decode_loop characters maxLen (4 * (i + k)) (destIndex + 3 * k)
           (if k = 0 then bytesDecoded else 3)
           (dest @ concat (map (group_bytes characters) [i..<i + k]))"
  using assms
proof (induction k arbitrary: i destIndex bytesDecoded dest)
  case 0
  then show ?case by simp
next
  case (Suc k)
  from Suc.prems(1) have first: "group_yield characters i = 3" by force
  from Suc.prems(2) have lt: "4 * i < length characters" by simp
  from Suc.prems(3) have fit: "destIndex + 3 \<le> maxLen" by simp
  have rest: "\<forall>j<k. group_yield characters (Suc i + j) = 3"
  proof (intro allI impI)
    fix j assume "j < k"
    then have "Suc j < Suc k" by simp
    with Suc.prems(1) have "group_yield characters (i + Suc j) = 3" by blast
    then show "group_yield characters (Suc i + j) = 3" by simp
  qed
  from Suc.prems(2) have le: "4 * (Suc i + k) \<le> length characters" by simp
  from Suc.prems(3) have fits: "destIndex + 3 + 3 * k \<le> maxLen" by simp
  have up: "[i..<i + Suc k] = i # [Suc i..<Suc i + k]"
    by (simp add: upt_conv_Cons)
  have "decode_loop characters maxLen (4 * i) destIndex bytesDecoded dest =
        decode_loop characters maxLen (4 * Suc i) (destIndex + 3) 3
          (dest @ group_bytes characters i)"
    by (rule decode_loop_step [OF first lt fit])
  also have "\<dots> = decode_loop characters maxLen (4 * (Suc i + k)) (destIndex + 3 + 3 * k)
           (if k = 0 then 3 else 3)
           (dest @ group_bytes characters i
             @ concat (map (group_bytes characters) [Suc i..<Suc i + k]))"
    using Suc.IH [OF rest le fits, of 3 "dest @ group_bytes characters i"] by simp
  finally have run: "decode_loop characters maxLen (4 * i) destIndex bytesDecoded dest =
        decode_loop characters maxLen (4 * (Suc i + k)) (destIndex + 3 + 3 * k)
           (if k = 0 then 3 else 3)
           (dest @ group_bytes characters i
             @ concat (map (group_bytes characters) [Suc i..<Suc i + k]))" .
  have e1: "4 * (Suc i + k) = 4 * (i + Suc k)" by simp
  have e2: "destIndex + 3 + 3 * k = destIndex + 3 * Suc k" by simp
  have e3: "(if k = 0 then 3 else 3) = (if Suc k = 0 then bytesDecoded else (3::nat))" by simp
  have e4: "dest @ group_bytes characters i
             @ concat (map (group_bytes characters) [Suc i..<Suc i + k])
            = dest @ concat (map (group_bytes characters) [i..<i + Suc k])"
    by (subst up) simp
  from run show ?case by (simp only: e1 e2 e3 e4)
qed

lemma group_bytes_full:
  "\<forall>j<k. group_yield characters j = 3 \<Longrightarrow>
   length (concat (map (group_bytes characters) [0..<k])) = 3 * k"
proof (induction k)
  case 0
  then show ?case by simp
next
  case (Suc k)
  then have "length (group_bytes characters k) = 3"
    by (simp add: group_bytes_length)
  with Suc show ?case by simp
qed

text \<open>
  The buffer of \<^verbatim>\<open>maxLen\<close> bytes has room for three bytes of every group, as long
  as the product \<^verbatim>\<open>3 * effLen\<close> does not wrap around.
\<close>

lemma maxLen_fits:
  assumes "3 * effLen < 2 ^ 32" "effLen mod 4 = 0" "4 * k < effLen"
  shows "3 * k + 3 \<le> u32 (3 * effLen) div 4"
proof -
  from assms(2) obtain m where m: "effLen = 4 * m" by (auto simp: mod_eq_0_iff_dvd)
  with assms(3) have "k < m" by simp
  then have "3 * k + 3 \<le> 3 * m" by simp
  moreover have "u32 (3 * effLen) div 4 = 3 * m"
    using assms(1) by (simp add: u32_def m)
  ultimately show ?thesis by simp
qed

text \<open>The loop up to the first group that yields fewer than 3 bytes.\<close>

lemma decode_loop_first_short:
  assumes "4 * k < length characters" "\<forall>j<k. group_yield characters j = 3"
    "group_yield characters k < 3" "3 * k + 3 \<le> maxLen"
  shows "decode_loop characters maxLen 0 0 0 [] =
         Returns (3 * k, group_yield characters k,
          concat (map (group_bytes characters) [0..<k]) @ group_bytes characters k)"
proof -
  from assms(1) have le: "4 * (0 + k) \<le> length characters" by simp
  from assms(2) have all: "\<forall>j<k. group_yield characters (0 + j) = 3" by simp
  from assms(4) have fits: "0 + 3 * k \<le> maxLen" by simp
  have "length (group_bytes characters k) \<le> 3"
    unfolding group_bytes_def by (rule decodeWord_stored_le)
  with assms(4) have fit: "0 + 3 * k + length (group_bytes characters k) \<le> maxLen" by simp
  have "decode_loop characters maxLen (4 * 0) 0 0 [] =
        decode_loop characters maxLen (4 * (0 + k)) (0 + 3 * k) (if k = 0 then 0 else 3)
          ([] @ concat (map (group_bytes characters) [0..<0 + k]))"
    by (rule decode_loop_full_groups [OF all le fits])
  also have "\<dots> = Returns (0 + 3 * k, group_yield characters k,
      ([] @ concat (map (group_bytes characters) [0..<0 + k])) @ group_bytes characters k)"
    using decode_loop_break [OF assms(3) assms(1) fit] by simp
  finally show ?thesis by simp
qed

text \<open>What the decoder returns when the loop is left.\<close>

lemma decode_first_short_padded:
  assumes "3 * length (whiteSpaceFreeStringCreate string) < 2 ^ 32"
    and "length (whiteSpaceFreeStringCreate string) mod 4 = 0"
    and "4 * k < length (whiteSpaceFreeStringCreate string)"
    and "\<forall>j<k. group_yield (whiteSpaceFreeStringCreate string) j = 3"
    and "group_yield (whiteSpaceFreeStringCreate string) k = 1
         \<or> group_yield (whiteSpaceFreeStringCreate string) k = 2"
  shows "ITBase64DecodedDataCreate string =
         Returns (Some (concat (map (group_bytes (whiteSpaceFreeStringCreate string)) [0..<k])
                @ group_bytes (whiteSpaceFreeStringCreate string) k),
          3 * k + group_yield (whiteSpaceFreeStringCreate string) k)"
proof -
  let ?cs = "whiteSpaceFreeStringCreate string"
  let ?maxLen = "u32 (3 * length ?cs) div 4"
  from assms(5) have short: "group_yield ?cs k < 3" and pos: "0 < group_yield ?cs k" by auto
  have fits: "3 * k + 3 \<le> ?maxLen" by (rule maxLen_fits [OF assms(1) assms(2) assms(3)])
  have len_last: "length (group_bytes ?cs k) = group_yield ?cs k"
    using pos by (simp add: group_bytes_length)
  have len_full: "length (concat (map (group_bytes ?cs) [0..<k])) = 3 * k"
    by (rule group_bytes_full [OF assms(4)])
  have loop: "decode_loop ?cs ?maxLen 0 0 0 [] =
      Returns (3 * k, group_yield ?cs k,
        concat (map (group_bytes ?cs) [0..<k]) @ group_bytes ?cs k)"
    by (rule decode_loop_first_short [OF assms(3) assms(4) short fits])
  have "take (3 * k + group_yield ?cs k)
          (concat (map (group_bytes ?cs) [0..<k]) @ group_bytes ?cs k)
        = concat (map (group_bytes ?cs) [0..<k]) @ group_bytes ?cs k"
    using len_last len_full by simp
  with loop assms(2) short pos show ?thesis
    by (simp add: ITBase64DecodedDataCreate_def Let_def)
qed

lemma decode_all_full:
  assumes "3 * length (whiteSpaceFreeStringCreate string) < 2 ^ 32"
    and "length (whiteSpaceFreeStringCreate string) = 4 * q" and "0 < q"
    and "\<forall>j<q. group_yield (whiteSpaceFreeStringCreate string) j = 3"
  shows "ITBase64DecodedDataCreate string =
         Returns (Some (concat (map (group_bytes (whiteSpaceFreeStringCreate string)) [0..<q])),
                  3 * q)"
proof -
  let ?cs = "whiteSpaceFreeStringCreate string"
  let ?maxLen = "u32 (3 * length ?cs) div 4"
  from assms(2) have le: "4 * (0 + q) \<le> length ?cs" by simp
  from assms(4) have all: "\<forall>j<q. group_yield ?cs (0 + j) = 3" by simp
  have "?maxLen = 3 * q" using assms(1) by (simp add: u32_def assms(2))
  then have fits: "0 + 3 * q \<le> ?maxLen" by simp
  have "decode_loop ?cs ?maxLen (4 * 0) 0 0 [] =
        decode_loop ?cs ?maxLen (4 * (0 + q)) (0 + 3 * q) (if q = 0 then 0 else 3)
          ([] @ concat (map (group_bytes ?cs) [0..<0 + q]))"
    by (rule decode_loop_full_groups [OF all le fits])
  also have "\<dots> = Returns (3 * q, 3, concat (map (group_bytes ?cs) [0..<q]))"
    using assms(2,3) by (subst decode_loop.simps) simp
  finally have loop: "decode_loop ?cs ?maxLen 0 0 0 [] =
      Returns (3 * q, 3, concat (map (group_bytes ?cs) [0..<q]))"
    by simp
  have "length (concat (map (group_bytes ?cs) [0..<q])) = 3 * q"
    by (rule group_bytes_full [OF assms(4)])
  then have "take (3 * q) (concat (map (group_bytes ?cs) [0..<q]))
      = concat (map (group_bytes ?cs) [0..<q])" by simp
  with loop assms(2) show ?thesis
    by (simp add: ITBase64DecodedDataCreate_def Let_def)
qed




lemma big_text_group:
  assumes "j < 357913942"
  shows "decodeWord (drop (4 * j) (replicate 1431655768 (of_char CHR ''A'') @ cstr ''!!!!''))
         = (3, [0, 0, 0])"
proof -
  let ?cs = "replicate 1431655768 (of_char CHR ''A'') @ cstr ''!!!!''"
  have nth: "drop (4 * j) ?cs ! i = of_char CHR ''A''" if "i < 4" for i
  proof -
    from assms that have lt: "4 * j + i < 1431655768" by simp
    have "4 * j \<le> length ?cs" using assms by simp
    then have "drop (4 * j) ?cs ! i = ?cs ! (4 * j + i)" by (rule nth_drop)
    also have "\<dots> = replicate 1431655768 (of_char CHR ''A'') ! (4 * j + i)"
      using lt by (simp only: nth_append length_replicate if_True)
    also have "\<dots> = of_char CHR ''A''" using lt by (rule nth_replicate)
    finally show ?thesis .
  qed
  have n0: "drop (4 * j) ?cs ! 0 = of_char CHR ''A''" by (rule nth) simp
  have n1: "drop (4 * j) ?cs ! 1 = of_char CHR ''A''" by (rule nth) simp
  have n2: "drop (4 * j) ?cs ! 2 = of_char CHR ''A''" by (rule nth) simp
  have n3: "drop (4 * j) ?cs ! 3 = of_char CHR ''A''" by (rule nth) simp
  have a: "cstr ''AAAA'' ! 0 = of_char CHR ''A''" "cstr ''AAAA'' ! 1 = of_char CHR ''A''"
    "cstr ''AAAA'' ! 2 = of_char CHR ''A''" "cstr ''AAAA'' ! 3 = of_char CHR ''A''"
    by (simp_all add: cstr_def)
  have "decodeWord (drop (4 * j) ?cs) = decodeWord (cstr ''AAAA'')"
    by (rule decodeWord_cong) (simp_all only: n0 n1 n2 n3 a)
  also have "\<dots> = (3, [0, 0, 0])"
    by (simp add: decodeWord_def cstr_def charToByte_def)
  finally show ?thesis .
qed

lemma big_text_full_groups:
  "\<forall>j<357913942.
     group_yield (replicate 1431655768 (of_char CHR ''A'') @ cstr ''!!!!'') j = 3"
proof (intro allI impI)
  fix j :: nat
  assume "j < 357913942"
  then show "group_yield (replicate 1431655768 (of_char CHR ''A'') @ cstr ''!!!!'') j = 3"
    unfolding group_yield_def by (simp only: big_text_group fst_conv)
qed


text \<open>
  Claim C2, as the code has it and within the sizes the buffer arithmetic holds. The
  decoder does not check that a padded group is the last one. For a text whose compacted
  length \<open>L'\<close> is a multiple of 4 with \<open>3 * L' < 2 ^ 32\<close>: when the first group that
  yields fewer than 3 bytes yields 1 or 2 bytes, the decoder succeeds, whether or not
  more groups follow. It returns the bytes of the full groups before that group followed
  by those 1 or 2 bytes, reports their number, and ignores every later group.
\<close>

theorem decode_stops_at_padded_group:
  assumes "3 * length (whiteSpaceFreeStringCreate string) < 2 ^ 32"
    and "length (whiteSpaceFreeStringCreate string) mod 4 = 0"
    and "4 * k < length (whiteSpaceFreeStringCreate string)"
    and "\<forall>j<k. group_yield (whiteSpaceFreeStringCreate string) j = 3"
    and "group_yield (whiteSpaceFreeStringCreate string) k = 1
         \<or> group_yield (whiteSpaceFreeStringCreate string) k = 2"
  shows "ITBase64DecodedDataCreate string =
         Returns (Some (concat (map (group_bytes (whiteSpaceFreeStringCreate string)) [0..<k])
                @ group_bytes (whiteSpaceFreeStringCreate string) k),
          3 * k + group_yield (whiteSpaceFreeStringCreate string) k)"
  using assms by (rule decode_first_short_padded)

theorem decode_stops_at_padded_group_witness:
  "3 * length (whiteSpaceFreeStringCreate (cstr ''TWFuTQ==TWFu'')) < 2 ^ 32
   \<and> length (whiteSpaceFreeStringCreate (cstr ''TWFuTQ==TWFu'')) mod 4 = 0
   \<and> 4 * 1 < length (whiteSpaceFreeStringCreate (cstr ''TWFuTQ==TWFu''))
   \<and> group_yield (whiteSpaceFreeStringCreate (cstr ''TWFuTQ==TWFu'')) 0 = 3
   \<and> group_yield (whiteSpaceFreeStringCreate (cstr ''TWFuTQ==TWFu'')) 1 = 1
   \<and> ITBase64DecodedDataCreate (cstr ''TWFuTQ==TWFu'')
       = Returns (Some [0x4D, 0x61, 0x6E, 0x4D], 4)"
proof -
  let ?s = "cstr ''TWFuTQ==TWFu''"
  have s: "3 * length (whiteSpaceFreeStringCreate ?s) < 2 ^ 32"
    and a: "length (whiteSpaceFreeStringCreate ?s) mod 4 = 0"
    and b: "4 * 1 < length (whiteSpaceFreeStringCreate ?s)"
    by (simp_all add: cstr_def isWhiteSpace_def)
  have c: "\<forall>j<1. group_yield (whiteSpaceFreeStringCreate ?s) j = 3"
    by (simp add: codec_defs)
  have d: "group_yield (whiteSpaceFreeStringCreate ?s) 1 = 1"
    by (simp add: codec_defs)
  then have d': "group_yield (whiteSpaceFreeStringCreate ?s) 1 = 1
      \<or> group_yield (whiteSpaceFreeStringCreate ?s) 1 = 2" by simp
  have e: "concat (map (group_bytes (whiteSpaceFreeStringCreate ?s)) [0..<1])
      @ group_bytes (whiteSpaceFreeStringCreate ?s) 1 = [0x4D, 0x61, 0x6E, 0x4D]"
    by (simp add: codec_defs)
  from s a b c d e decode_stops_at_padded_group [OF s a b c d'] show ?thesis by simp
qed

section \<open>The encoder\<close>

lemma sextet_facts:
  "drop_bit 2 (b AND 0xFC) < 64
   \<and> push_bit 4 (b AND 0x03) AND 0xC0 = 0
   \<and> drop_bit 4 (b AND 0xF0) AND 0xC0 = 0
   \<and> push_bit 2 (b AND 0x0F) AND 0xC0 = 0
   \<and> drop_bit 6 (b AND 0xC0) AND 0xC0 = 0
   \<and> b AND 0x3F < 64
   \<and> (b < 64 \<longleftrightarrow> b AND 0xC0 = 0)" for b :: u8
proof -
  have "\<forall>b :: u8. drop_bit 2 (b AND 0xFC) < 64
   \<and> push_bit 4 (b AND 0x03) AND 0xC0 = 0
   \<and> drop_bit 4 (b AND 0xF0) AND 0xC0 = 0
   \<and> push_bit 2 (b AND 0x0F) AND 0xC0 = 0
   \<and> drop_bit 6 (b AND 0xC0) AND 0xC0 = 0
   \<and> b AND 0x3F < 64
   \<and> (b < 64 \<longleftrightarrow> b AND 0xC0 = 0)"
    unfolding u8_all by code_simp
  then show ?thesis by blast
qed

lemma sextet_or:
  fixes x y :: u8
  assumes "x AND 0xC0 = 0" "y AND 0xC0 = 0"
  shows "x OR y < 64"
proof -
  have "(x OR y) AND 0xC0 = (x AND 0xC0) OR (y AND 0xC0)"
    by (rule bit.conj_disj_distrib2)
  with assms have "(x OR y) AND 0xC0 = 0" by simp
  then show ?thesis using sextet_facts [of "x OR y"] by blast
qed

lemma table_symbol:
  fixes v :: u8
  assumes "v < 64"
  shows "ITBase64AdditionsEncodingTable ! unat v \<in> set ITBase64AdditionsEncodingTable"
  using assms in_table_iff by blast

lemma encodeWord_length: "length (encodeWord bytes lastWord) = 4"
  by (simp add: encodeWord_def Let_def)

text \<open>Every character the word encoder stores is a symbol of the table or the padding.\<close>

lemma encodeWord_symbols:
  "set (encodeWord bytes lastWord)
     \<subseteq> set ITBase64AdditionsEncodingTable \<union> {of_char CHR ''=''}"
proof -
  have d0: "ITBase64AdditionsEncodingTable ! unat (drop_bit 2 (bytes ! 0 AND 0xFC))
      \<in> set ITBase64AdditionsEncodingTable"
    using sextet_facts by (intro table_symbol) blast
  have d1: "ITBase64AdditionsEncodingTable !
      unat (push_bit 4 (bytes ! 0 AND 0x03) OR drop_bit 4 (bytes ! 1 AND 0xF0))
      \<in> set ITBase64AdditionsEncodingTable"
    using sextet_facts by (intro table_symbol sextet_or) blast+
  have d2: "ITBase64AdditionsEncodingTable !
      unat (push_bit 2 (bytes ! 1 AND 0x0F) OR drop_bit 6 (bytes ! 2 AND 0xC0))
      \<in> set ITBase64AdditionsEncodingTable"
    using sextet_facts by (intro table_symbol sextet_or) blast+
  have d3: "ITBase64AdditionsEncodingTable ! unat (bytes ! 2 AND 0x3F)
      \<in> set ITBase64AdditionsEncodingTable"
    using sextet_facts by (intro table_symbol) blast
  show ?thesis
    unfolding encodeWord_def Let_def using d0 d1 d2 d3 by simp
qed

lemma nul_not_symbol: "0 \<notin> set ITBase64AdditionsEncodingTable \<union> {of_char CHR ''=''}"
proof -
  have "0 \<notin> set ITBase64AdditionsEncodingTable"
    using charToByte_table by (auto simp: in_table_iff)
  then show ?thesis by simp
qed

lemma third_exact: "(n::nat) mod 3 = 0 \<Longrightarrow> (n + 2) div 3 = n div 3"
  by arith

lemma third_rest: "(n::nat) mod 3 \<noteq> 0 \<Longrightarrow> (n + 2) div 3 = n div 3 + 1"
  by arith

lemma length_blocks:
  assumes "\<And>j. length (g j) = 4"
  shows "length (concat (map g [i..<q])) = 4 * (q - i)"
proof (induction "q - i" arbitrary: i)
  case 0
  then show ?case by simp
next
  case (Suc n)
  then have lt: "i < q" and n: "n = q - Suc i" by simp_all
  have up: "[i..<q] = i # [Suc i..<q]" using lt by (rule upt_conv_Cons)
  from Suc.hyps(1) [OF n] lt show ?case by (simp add: up assms)
qed

text \<open>
  The loop of the encoder over \<open>q\<close> full words, when the buffer has room for them: the
  words are stored one after the other.
\<close>

lemma encode_loop_groups:
  assumes "length dest + 4 * (q - i) \<le> capacity"
  shows "encode_loop ptr (3 * q) capacity (3 * i) dest =
         Returns (dest @ concat (map (\<lambda>j. encodeWord (drop (3 * j) ptr) False) [i..<q]))"
  using assms
proof (induction "q - i" arbitrary: i dest)
  case 0
  then have "\<not> 3 * i < 3 * q" by simp
  moreover from 0 have "[i..<q] = []" by simp
  ultimately show ?case by (subst encode_loop.simps) simp
next
  case (Suc n)
  then have lt: "i < q" and n: "n = q - Suc i" by simp_all
  have up: "[i..<q] = i # [Suc i..<q]" using lt by (rule upt_conv_Cons)
  from Suc.prems lt have room: "\<not> capacity < length dest + 4" by simp
  from Suc.prems lt have rest:
    "length (dest @ encodeWord (drop (3 * i) ptr) False) + 4 * (q - Suc i) \<le> capacity"
    by (simp add: encodeWord_length)
  have "encode_loop ptr (3 * q) capacity (3 * i) dest =
        encode_loop ptr (3 * q) capacity (3 * Suc i)
          (dest @ encodeWord (drop (3 * i) ptr) False)"
    using lt room by (subst encode_loop.simps) (simp add: add.commute)
  also have "\<dots> = Returns ((dest @ encodeWord (drop (3 * i) ptr) False)
      @ concat (map (\<lambda>j. encodeWord (drop (3 * j) ptr) False) [Suc i..<q]))"
    by (rule Suc.hyps(1) [OF n rest])
  finally show ?case by (simp add: up)
qed

text \<open>A loop that has a word to store and no room for it.\<close>

lemma encode_loop_overrun:
  "srcIndex < effLen \<Longrightarrow> capacity < length dest + 4 \<Longrightarrow>
   encode_loop ptr effLen capacity srcIndex dest = Overrun"
  by (subst encode_loop.simps) simp

text \<open>
  The whole result of the encoder for a buffer whose encoded size fits into
  \<^verbatim>\<open>unsigned int\<close>: the full words, the last word if there is a rest, the terminator.
\<close>

lemma encode_text:
  assumes "4 * ((length data + 2) div 3) < 2 ^ 32"
  shows "ITBase64EncodedStringCreate data =
         Returns (concat (map (\<lambda>j. encodeWord (drop (3 * j) data) False) [0..<length data div 3])
                  @ (if length data mod 3 \<noteq> 0
                     then encodeWord (take (length data mod 3)
                            (drop (length data - length data mod 3) data)
                            @ replicate (3 - length data mod 3) 0) True
                     else [])
                  @ [0],
                  4 * ((length data + 2) div 3))"
proof -
  define q where "q = length data div 3"
  define n where "n = 4 * ((length data + 2) div 3)"
  define fin where "fin = encodeWord (take (length data mod 3)
      (drop (length data - length data mod 3) data) @ replicate (3 - length data mod 3) 0) True"
  define G where "G = concat (map (\<lambda>j. encodeWord (drop (3 * j) data) False) [0..<q])"
  have unfold: "ITBase64EncodedStringCreate data =
      (case encode_loop data (length data - length data mod 3)
              (u32 ((length data div 3 + (if length data mod 3 \<noteq> 0 then 1 else 0)) * 4) + 1)
              0 [] of
         Overrun \<Rightarrow> Overrun
       | Returns dest \<Rightarrow>
           if length data mod 3 \<noteq> 0
           then if u32 ((length data div 3 + (if length data mod 3 \<noteq> 0 then 1 else 0)) * 4) < 4
                then Overrun
                else Returns
                  (take (u32 ((length data div 3 + (if length data mod 3 \<noteq> 0 then 1 else 0)) * 4)
                          - 4) dest @ fin @ [0],
                   u32 ((length data div 3 + (if length data mod 3 \<noteq> 0 then 1 else 0)) * 4))
           else Returns
                  (take (u32 ((length data div 3 + (if length data mod 3 \<noteq> 0 then 1 else 0)) * 4))
                     dest @ [0],
                   u32 ((length data div 3 + (if length data mod 3 \<noteq> 0 then 1 else 0)) * 4)))"
    unfolding fin_def by (simp only: ITBase64EncodedStringCreate_def Let_def)
  have size: "(length data div 3 + (if length data mod 3 \<noteq> 0 then 1 else 0)) * 4 = n"
  proof (cases "length data mod 3 = 0")
    case True
    then show ?thesis unfolding n_def third_exact [OF True] by simp
  next
    case False
    then show ?thesis unfolding n_def third_rest [OF False] by simp
  qed
  have rs: "u32 ((length data div 3 + (if length data mod 3 \<noteq> 0 then 1 else 0)) * 4) = n"
    unfolding size using assms by (simp add: u32_def n_def)
  have eff: "length data - length data mod 3 = 3 * q"
    unfolding q_def by (simp add: minus_mod_eq_mult_div)
  have n_ge: "4 * q \<le> n"
  proof (cases "length data mod 3 = 0")
    case True
    show ?thesis unfolding n_def q_def third_exact [OF True] by simp
  next
    case False
    show ?thesis unfolding n_def q_def third_rest [OF False] by simp
  qed
  have lp: "encode_loop data (3 * q) (n + 1) 0 [] = Returns G"
    using encode_loop_groups [of "[]" q 0 "n + 1" data] n_ge by (simp add: G_def)
  have lenG: "length G = 4 * q"
    unfolding G_def using length_blocks [of "\<lambda>j. encodeWord (drop (3 * j) data) False" 0 q]
    by (simp add: encodeWord_length)
  have step: "ITBase64EncodedStringCreate data =
      (if length data mod 3 \<noteq> 0
       then if n < 4 then Overrun else Returns (take (n - 4) G @ fin @ [0], n)
       else Returns (take n G @ [0], n))"
    unfolding unfold rs eff lp by (simp only: outcome.case)
  show ?thesis
  proof (cases "length data mod 3 = 0")
    case True
    have "n = 4 * q" unfolding n_def q_def third_exact [OF True] by simp
    with lenG have "take n G = G" by simp
    with True step show ?thesis
      unfolding n_def [symmetric] fin_def [symmetric] G_def [symmetric] q_def [symmetric]
      by simp
  next
    case False
    have "n = 4 * q + 4" unfolding n_def q_def third_rest [OF False] by simp
    with lenG have "take (n - 4) G = G" and "\<not> n < 4" by simp_all
    with False step show ?thesis
      unfolding n_def [symmetric] fin_def [symmetric] G_def [symmetric] q_def [symmetric]
      by simp
  qed
qed

text \<open>
  Claim C5, within the sizes \<^verbatim>\<open>unsigned int\<close> holds. For a buffer of \<open>L\<close> bytes
  whose encoded size \<open>4 * ceil(L / 3)\<close>, written \<open>4 * ((L + 2) div 3)\<close>, is below
  \<open>2 ^ 32\<close>, the encoder returns a text and reports that size as its length. The buffer
  returned holds that many characters, none of them the terminator, followed by the
  terminator. The empty buffer gives the empty text and the length 0.
\<close>

theorem encode_length:
  assumes "4 * ((length data + 2) div 3) < 2 ^ 32"
  shows "(\<exists>dest. ITBase64EncodedStringCreate data
                  = Returns (dest, 4 * ((length data + 2) div 3))
               \<and> length dest = 4 * ((length data + 2) div 3) + 1
               \<and> last dest = 0
               \<and> 0 \<notin> set (butlast dest))
         \<and> ITBase64EncodedStringCreate [] = Returns ([0], 0)"
proof -
  define out where "out =
      concat (map (\<lambda>j. encodeWord (drop (3 * j) data) False) [0..<length data div 3])
      @ (if length data mod 3 \<noteq> 0
         then encodeWord (take (length data mod 3)
                (drop (length data - length data mod 3) data)
                @ replicate (3 - length data mod 3) 0) True
         else [])"
  have res: "ITBase64EncodedStringCreate data = Returns (out @ [0], 4 * ((length data + 2) div 3))"
    unfolding out_def using encode_text [OF assms] by (simp only: append_assoc)
  have words: "length (concat (map (\<lambda>j. encodeWord (drop (3 * j) data) False)
      [0..<length data div 3])) = 4 * (length data div 3)"
    using length_blocks [of "\<lambda>j. encodeWord (drop (3 * j) data) False" 0 "length data div 3"]
    by (simp add: encodeWord_length)
  have out_len: "length out = 4 * ((length data + 2) div 3)"
  proof (cases "length data mod 3 = 0")
    case True
    then have "length out = 4 * (length data div 3)"
      unfolding out_def using words by simp
    then show ?thesis unfolding third_exact [OF True] .
  next
    case False
    then have "length out = 4 * (length data div 3) + 4"
      unfolding out_def using words by (simp add: encodeWord_length)
    then show ?thesis unfolding third_rest [OF False] by simp
  qed
  have "set (concat (map (\<lambda>j. encodeWord (drop (3 * j) data) False) [0..<length data div 3]))
      \<subseteq> set ITBase64AdditionsEncodingTable \<union> {of_char CHR ''=''}"
    using encodeWord_symbols by auto
  moreover have "set (if length data mod 3 \<noteq> 0
         then encodeWord (take (length data mod 3)
                (drop (length data - length data mod 3) data)
                @ replicate (3 - length data mod 3) 0) True
         else []) \<subseteq> set ITBase64AdditionsEncodingTable \<union> {of_char CHR ''=''}"
    using encodeWord_symbols by (cases "length data mod 3 = 0") simp_all
  ultimately have "set out \<subseteq> set ITBase64AdditionsEncodingTable \<union> {of_char CHR ''=''}"
    unfolding out_def by (simp only: set_append Un_least)
  with nul_not_symbol have no_nul: "0 \<notin> set out" by blast
  have "length (out @ [0]) = 4 * ((length data + 2) div 3) + 1"
    using out_len by simp
  moreover have "last (out @ [0]) = 0" by simp
  moreover have "0 \<notin> set (butlast (out @ [0]))" using no_nul by simp
  ultimately have first: "\<exists>dest. ITBase64EncodedStringCreate data
                  = Returns (dest, 4 * ((length data + 2) div 3))
               \<and> length dest = 4 * ((length data + 2) div 3) + 1
               \<and> last dest = 0
               \<and> 0 \<notin> set (butlast dest)"
    using res by blast
  have empty: "ITBase64EncodedStringCreate [] = Returns ([0], 0)"
    by (simp add: ITBase64EncodedStringCreate_def encode_loop.simps u32_def)
  from first empty show ?thesis by blast
qed

theorem encode_length_witness:
  "4 * ((length [0x4D :: u8, 0x61] + 2) div 3) < (2 :: nat) ^ 32
   \<and> ITBase64EncodedStringCreate [0x4D] = Returns (cstr ''TQ=='' @ [0], 4)
   \<and> ITBase64EncodedStringCreate [0x4D, 0x61] = Returns (cstr ''TWE='' @ [0], 4)
   \<and> ITBase64EncodedStringCreate [0x4D, 0x61, 0x6E] = Returns (cstr ''TWFu'' @ [0], 4)
   \<and> ITBase64EncodedStringCreate [0x4D, 0x61, 0x6E, 0x4D] = Returns (cstr ''TWFuTQ=='' @ [0], 8)
   \<and> ITBase64EncodedStringCreate [] = Returns ([0], 0)"
proof -
  have b: "4 * ((length [0x4D :: u8, 0x61] + 2) div 3) < (2 :: nat) ^ 32" by simp
  have "ITBase64EncodedStringCreate [0x4D] = Returns (cstr ''TQ=='' @ [0], 4)"
    and "ITBase64EncodedStringCreate [0x4D, 0x61] = Returns (cstr ''TWE='' @ [0], 4)"
    and "ITBase64EncodedStringCreate [0x4D, 0x61, 0x6E] = Returns (cstr ''TWFu'' @ [0], 4)"
    and "ITBase64EncodedStringCreate [0x4D, 0x61, 0x6E, 0x4D]
          = Returns (cstr ''TWFuTQ=='' @ [0], 8)"
    by (simp_all add: codec_defs)
  with b encode_length [OF b] show ?thesis by simp
qed

text \<open>
  A buffer of 3221225470 bytes: \<open>4 * ceil(L / 3)\<close> is \<open>2 ^ 32\<close>, so
  \<^verbatim>\<open>resultSize\<close> wraps around to 0 and one character is allocated. The first round
  of the loop stores four characters: the encoder writes past the end of its buffer and
  reports no length at all.
\<close>

theorem encode_overrun_counterexample:
  "length (replicate 3221225470 (0 :: u8)) = 3221225470
   \<and> 4 * ((length (replicate 3221225470 (0 :: u8)) + 2) div 3) = 2 ^ 32
   \<and> u32 (4 * ((length (replicate 3221225470 (0 :: u8)) + 2) div 3)) = 0
   \<and> ITBase64EncodedStringCreate (replicate 3221225470 0) = Overrun"
proof -
  have len: "length (replicate 3221225470 (0 :: u8)) = 3221225470" by simp
  have "encode_loop (replicate 3221225470 0) 3221225469 1 0 [] = Overrun"
    by (rule encode_loop_overrun) simp_all
  then have "ITBase64EncodedStringCreate (replicate 3221225470 0) = Overrun"
    unfolding ITBase64EncodedStringCreate_def Let_def len by (simp add: u32_def)
  then show ?thesis by (simp add: u32_def)
qed

section \<open>Regrouping three bytes into four sextets and back\<close>

lemma regroup_facts:
  "push_bit 2 (drop_bit 2 (x AND 0xFC)) OR drop_bit 4 (push_bit 4 (x AND 0x03) AND 0x30) = x
   \<and> drop_bit 4 (drop_bit 4 (x AND 0xF0) AND 0x30) = 0
   \<and> push_bit 4 (push_bit 4 (x AND 0x03) AND 0x0f) = 0
   \<and> push_bit 4 (drop_bit 4 (x AND 0xF0) AND 0x0f) OR drop_bit 2 (push_bit 2 (x AND 0x0F) AND 0x3c) = x
   \<and> drop_bit 2 (drop_bit 6 (x AND 0xC0) AND 0x3c) = 0
   \<and> push_bit 6 (push_bit 2 (x AND 0x0F) AND 0x03) = 0
   \<and> push_bit 6 (drop_bit 6 (x AND 0xC0) AND 0x03) OR (x AND 0x3F) = x" for x :: u8
proof -
  have "\<forall>x :: u8.
     push_bit 2 (drop_bit 2 (x AND 0xFC)) OR drop_bit 4 (push_bit 4 (x AND 0x03) AND 0x30) = x
   \<and> drop_bit 4 (drop_bit 4 (x AND 0xF0) AND 0x30) = 0
   \<and> push_bit 4 (push_bit 4 (x AND 0x03) AND 0x0f) = 0
   \<and> push_bit 4 (drop_bit 4 (x AND 0xF0) AND 0x0f) OR drop_bit 2 (push_bit 2 (x AND 0x0F) AND 0x3c) = x
   \<and> drop_bit 2 (drop_bit 6 (x AND 0xC0) AND 0x3c) = 0
   \<and> push_bit 6 (push_bit 2 (x AND 0x0F) AND 0x03) = 0
   \<and> push_bit 6 (drop_bit 6 (x AND 0xC0) AND 0x03) OR (x AND 0x3F) = x"
    unfolding u8_all by code_simp
  then show ?thesis by blast
qed

lemma regroup_byte0:
  "push_bit 2 (drop_bit 2 (x AND 0xFC))
     OR drop_bit 4 ((push_bit 4 (x AND 0x03) OR drop_bit 4 (y AND 0xF0)) AND 0x30) = x"
  for x y :: u8
proof -
  have "drop_bit 4 ((push_bit 4 (x AND 0x03) OR drop_bit 4 (y AND 0xF0)) AND 0x30)
      = drop_bit 4 (push_bit 4 (x AND 0x03) AND 0x30) OR drop_bit 4 (drop_bit 4 (y AND 0xF0) AND 0x30)"
    by (simp only: bit.conj_disj_distrib2 drop_bit_or)
  also have "\<dots> = drop_bit 4 (push_bit 4 (x AND 0x03) AND 0x30)"
    using regroup_facts [of y] by (simp only: or.right_neutral)
  finally show ?thesis using regroup_facts [of x] by (simp only:)
qed

lemma regroup_byte1:
  "push_bit 4 ((push_bit 4 (x AND 0x03) OR drop_bit 4 (y AND 0xF0)) AND 0x0f)
     OR drop_bit 2 ((push_bit 2 (y AND 0x0F) OR drop_bit 6 (z AND 0xC0)) AND 0x3c) = y"
  for x y z :: u8
proof -
  have "push_bit 4 ((push_bit 4 (x AND 0x03) OR drop_bit 4 (y AND 0xF0)) AND 0x0f)
      = push_bit 4 (push_bit 4 (x AND 0x03) AND 0x0f) OR push_bit 4 (drop_bit 4 (y AND 0xF0) AND 0x0f)"
    by (simp only: bit.conj_disj_distrib2 push_bit_or)
  also have "\<dots> = push_bit 4 (drop_bit 4 (y AND 0xF0) AND 0x0f)"
    using regroup_facts [of x] by (simp only: or.left_neutral)
  finally have a: "push_bit 4 ((push_bit 4 (x AND 0x03) OR drop_bit 4 (y AND 0xF0)) AND 0x0f)
      = push_bit 4 (drop_bit 4 (y AND 0xF0) AND 0x0f)" .
  have "drop_bit 2 ((push_bit 2 (y AND 0x0F) OR drop_bit 6 (z AND 0xC0)) AND 0x3c)
      = drop_bit 2 (push_bit 2 (y AND 0x0F) AND 0x3c) OR drop_bit 2 (drop_bit 6 (z AND 0xC0) AND 0x3c)"
    by (simp only: bit.conj_disj_distrib2 drop_bit_or)
  also have "\<dots> = drop_bit 2 (push_bit 2 (y AND 0x0F) AND 0x3c)"
    using regroup_facts [of z] by (simp only: or.right_neutral)
  finally have b: "drop_bit 2 ((push_bit 2 (y AND 0x0F) OR drop_bit 6 (z AND 0xC0)) AND 0x3c)
      = drop_bit 2 (push_bit 2 (y AND 0x0F) AND 0x3c)" .
  show ?thesis unfolding a b using regroup_facts [of y] by (simp only:)
qed

lemma regroup_byte2:
  "push_bit 6 ((push_bit 2 (y AND 0x0F) OR drop_bit 6 (z AND 0xC0)) AND 0x03)
     OR (z AND 0x3F) = z"
  for y z :: u8
proof -
  have "push_bit 6 ((push_bit 2 (y AND 0x0F) OR drop_bit 6 (z AND 0xC0)) AND 0x03)
      = push_bit 6 (push_bit 2 (y AND 0x0F) AND 0x03) OR push_bit 6 (drop_bit 6 (z AND 0xC0) AND 0x03)"
    by (simp only: bit.conj_disj_distrib2 push_bit_or)
  also have "\<dots> = push_bit 6 (drop_bit 6 (z AND 0xC0) AND 0x03)"
    using regroup_facts [of y] by (simp only: or.left_neutral)
  finally show ?thesis using regroup_facts [of z] by (simp only:)
qed

lemma sextet_not_invalid: "v < 64 \<Longrightarrow> v \<noteq> 0xff" for v :: u8
  by auto

lemma decodeWord_full:
  fixes s0 s1 s2 s3 :: u8
  assumes "s0 < 64" "s1 < 64" "s2 < 64" "s3 < 64"
  shows "decodeWord ([ITBase64AdditionsEncodingTable ! unat s0,
                      ITBase64AdditionsEncodingTable ! unat s1,
                      ITBase64AdditionsEncodingTable ! unat s2,
                      ITBase64AdditionsEncodingTable ! unat s3] @ more)
         = (3, [push_bit 2 s0 OR drop_bit 4 (s1 AND 0x30),
                push_bit 4 (s1 AND 0x0f) OR drop_bit 2 (s2 AND 0x3c),
                push_bit 6 (s2 AND 0x03) OR s3])"
  using assms [THEN charToByte_table] assms [THEN sextet_not_invalid]
  by (simp add: decodeWord_def Let_def)

lemma decodeWord_two:
  fixes s0 s1 s2 :: u8
  assumes "s0 < 64" "s1 < 64" "s2 < 64"
  shows "decodeWord ([ITBase64AdditionsEncodingTable ! unat s0,
                      ITBase64AdditionsEncodingTable ! unat s1,
                      ITBase64AdditionsEncodingTable ! unat s2,
                      of_char CHR ''=''] @ more)
         = (2, [push_bit 2 s0 OR drop_bit 4 (s1 AND 0x30),
                push_bit 4 (s1 AND 0x0f) OR drop_bit 2 (s2 AND 0x3c)])"
  using assms [THEN charToByte_table] assms [THEN sextet_not_invalid]
  by (simp add: decodeWord_def Let_def)

lemma decodeWord_one:
  fixes s0 s1 :: u8
  assumes "s0 < 64" "s1 < 64"
  shows "decodeWord ([ITBase64AdditionsEncodingTable ! unat s0,
                      ITBase64AdditionsEncodingTable ! unat s1,
                      of_char CHR ''='', c] @ more)
         = (1, [push_bit 2 s0 OR drop_bit 4 (s1 AND 0x30)])"
  using assms [THEN charToByte_table] assms [THEN sextet_not_invalid]
  by (simp add: decodeWord_def Let_def)

section \<open>Padding decided by the symbol \<^verbatim>\<open>'A'\<close>\<close>

lemma table_first: "ITBase64AdditionsEncodingTable ! 0 = of_char CHR ''A''"
  by (simp add: ITBase64AdditionsEncodingTable_def cstr_def)

lemma table_symbol_A:
  fixes v :: u8
  assumes "v < 64"
  shows "ITBase64AdditionsEncodingTable ! unat v = of_char CHR ''A'' \<longleftrightarrow> v = 0"
proof
  assume "ITBase64AdditionsEncodingTable ! unat v = of_char CHR ''A''"
  then have "charToByte (ITBase64AdditionsEncodingTable ! unat v) = charToByte (of_char CHR ''A'')"
    by (simp only:)
  moreover have "charToByte (of_char CHR ''A'') = 0" by (simp add: charToByte_def)
  ultimately show "v = 0" using charToByte_table [OF assms] by simp
next
  assume "v = 0"
  then show "ITBase64AdditionsEncodingTable ! unat v = of_char CHR ''A''"
    by (simp add: table_first)
qed

lemma low_nibble_sextet:
  "push_bit 2 (b AND 0x0F) OR drop_bit 6 (0 AND 0xC0) = 0 \<longleftrightarrow> b AND 0x0F = 0" for b :: u8
proof -
  have "\<forall>b :: u8. push_bit 2 (b AND 0x0F) OR drop_bit 6 (0 AND 0xC0) = 0 \<longleftrightarrow> b AND 0x0F = 0"
    unfolding u8_all by code_simp
  then show ?thesis by blast
qed

text \<open>The four characters of a word that is not the last one.\<close>

lemma encodeWord_plain:
  "encodeWord bytes False =
     [ITBase64AdditionsEncodingTable ! unat (drop_bit 2 (bytes ! 0 AND 0xFC)),
      ITBase64AdditionsEncodingTable !
        unat (push_bit 4 (bytes ! 0 AND 0x03) OR drop_bit 4 (bytes ! 1 AND 0xF0)),
      ITBase64AdditionsEncodingTable !
        unat (push_bit 2 (bytes ! 1 AND 0x0F) OR drop_bit 6 (bytes ! 2 AND 0xC0)),
      ITBase64AdditionsEncodingTable ! unat (bytes ! 2 AND 0x3F)]"
  by (simp add: encodeWord_def Let_def)

text \<open>A last word of one real byte: both padding characters are due, and both are stored.\<close>

lemma encodeWord_last_one:
  "encodeWord [b, 0, 0] True =
     [ITBase64AdditionsEncodingTable ! unat (drop_bit 2 (b AND 0xFC)),
      ITBase64AdditionsEncodingTable ! unat (push_bit 4 (b AND 0x03) OR drop_bit 4 (0 AND 0xF0)),
      of_char CHR ''='', of_char CHR ''='']"
  by (simp add: encodeWord_def Let_def table_first)

text \<open>
  A last word of two real bytes: the fourth character alone is overwritten exactly when
  the low nibble of the second byte is not zero; when it is zero the third character is
  overwritten too.
\<close>

lemma encodeWord_last_two:
  "encodeWord [b0, b1, 0] True =
     (if b1 AND 0x0F = 0
      then [ITBase64AdditionsEncodingTable ! unat (drop_bit 2 (b0 AND 0xFC)),
            ITBase64AdditionsEncodingTable !
              unat (push_bit 4 (b0 AND 0x03) OR drop_bit 4 (b1 AND 0xF0)),
            of_char CHR ''='', of_char CHR ''='']
      else [ITBase64AdditionsEncodingTable ! unat (drop_bit 2 (b0 AND 0xFC)),
            ITBase64AdditionsEncodingTable !
              unat (push_bit 4 (b0 AND 0x03) OR drop_bit 4 (b1 AND 0xF0)),
            ITBase64AdditionsEncodingTable !
              unat (push_bit 2 (b1 AND 0x0F) OR drop_bit 6 (0 AND 0xC0)),
            of_char CHR ''=''])"
proof -
  define s2 :: u8 where "s2 = push_bit 2 (b1 AND 0x0F) OR drop_bit 6 (0 AND 0xC0)"
  have "s2 < 64"
    unfolding s2_def using sextet_facts by (intro sextet_or) blast+
  then have A: "ITBase64AdditionsEncodingTable ! unat s2 = of_char CHR ''A'' \<longleftrightarrow> b1 AND 0x0F = 0"
    using table_symbol_A [of s2] low_nibble_sextet [of b1] by (simp only: s2_def)
  have enc: "encodeWord [b0, b1, 0] True =
     (if ITBase64AdditionsEncodingTable ! unat s2 = of_char CHR ''A''
      then [ITBase64AdditionsEncodingTable ! unat (drop_bit 2 (b0 AND 0xFC)),
            ITBase64AdditionsEncodingTable !
              unat (push_bit 4 (b0 AND 0x03) OR drop_bit 4 (b1 AND 0xF0)),
            of_char CHR ''='', of_char CHR ''='']
      else [ITBase64AdditionsEncodingTable ! unat (drop_bit 2 (b0 AND 0xFC)),
            ITBase64AdditionsEncodingTable !
              unat (push_bit 4 (b0 AND 0x03) OR drop_bit 4 (b1 AND 0xF0)),
            ITBase64AdditionsEncodingTable ! unat s2,
            of_char CHR ''=''])"
    unfolding s2_def by (simp add: encodeWord_def Let_def table_first)
  show ?thesis unfolding enc A unfolding s2_def by (rule refl)
qed

text \<open>
  Claim C3. For a last group of two real bytes the fourth character is always
  overwritten with \<^verbatim>\<open>'='\<close>, but not always the fourth alone: the word encoder
  compares the third symbol with \<^verbatim>\<open>'A'\<close>, so when the low nibble of the second
  byte is zero it overwrites the third character too. The bytes \<^verbatim>\<open>4D 60\<close> give
  \<^verbatim>\<open>"TW=="\<close> where \<^verbatim>\<open>"TWA="\<close> is due; the bytes \<^verbatim>\<open>4D 61\<close> give
  \<^verbatim>\<open>"TWE="\<close>.
\<close>

theorem encodeWord_two_bytes_overpadded:
  "encodeWord [0x4D, 0x60, 0] True = cstr ''TW==''
   \<and> encodeWord [0x4D, 0x60, 0] False = cstr ''TWAA''
   \<and> encodeWord [0x4D, 0x61, 0] True = cstr ''TWE=''
   \<and> encodeWord [b0, b1, 0] True ! 3 = of_char CHR ''=''
   \<and> (encodeWord [b0, b1, 0] True ! 2 = of_char CHR ''='' \<longleftrightarrow> b1 AND 0x0F = 0)"
proof -
  have ex: "encodeWord [0x4D, 0x60, 0] True = cstr ''TW==''"
    "encodeWord [0x4D, 0x60, 0] False = cstr ''TWAA''"
    "encodeWord [0x4D, 0x61, 0] True = cstr ''TWE=''"
    by (simp_all add: codec_defs)
  define s2 :: u8 where "s2 = push_bit 2 (b1 AND 0x0F) OR drop_bit 6 (0 AND 0xC0)"
  have "s2 < 64"
    unfolding s2_def using sextet_facts by (intro sextet_or) blast+
  then have ne: "ITBase64AdditionsEncodingTable ! unat s2 \<noteq> of_char CHR ''=''"
    using charToByte_table by blast
  have fourth: "encodeWord [b0, b1, 0] True ! 3 = of_char CHR ''=''"
    unfolding encodeWord_last_two by (cases "b1 AND 0x0F = 0") simp_all
  have third: "encodeWord [b0, b1, 0] True ! 2 = of_char CHR ''='' \<longleftrightarrow> b1 AND 0x0F = 0"
    unfolding encodeWord_last_two using ne unfolding s2_def
    by (cases "b1 AND 0x0F = 0") simp_all
  from ex fourth third show ?thesis by blast
qed

section \<open>Round trip of one word\<close>

lemma decode_encode_word:
  "decodeWord (encodeWord bytes False @ more) = (3, [bytes ! 0, bytes ! 1, bytes ! 2])"
proof -
  have "decodeWord (encodeWord bytes False @ more) =
      (3, [push_bit 2 (drop_bit 2 (bytes ! 0 AND 0xFC))
             OR drop_bit 4 ((push_bit 4 (bytes ! 0 AND 0x03) OR drop_bit 4 (bytes ! 1 AND 0xF0)) AND 0x30),
           push_bit 4 ((push_bit 4 (bytes ! 0 AND 0x03) OR drop_bit 4 (bytes ! 1 AND 0xF0)) AND 0x0f)
             OR drop_bit 2 ((push_bit 2 (bytes ! 1 AND 0x0F) OR drop_bit 6 (bytes ! 2 AND 0xC0)) AND 0x3c),
           push_bit 6 ((push_bit 2 (bytes ! 1 AND 0x0F) OR drop_bit 6 (bytes ! 2 AND 0xC0)) AND 0x03)
             OR (bytes ! 2 AND 0x3F)])"
    unfolding encodeWord_plain
    using sextet_facts by (intro decodeWord_full sextet_or) blast+
  then show ?thesis by (simp only: regroup_byte0 regroup_byte1 regroup_byte2)
qed

lemma decode_encode_last_one:
  "decodeWord (encodeWord [b, 0, 0] True @ more) = (1, [b])"
proof -
  have "decodeWord (encodeWord [b, 0, 0] True @ more) =
      (1, [push_bit 2 (drop_bit 2 (b AND 0xFC))
             OR drop_bit 4 ((push_bit 4 (b AND 0x03) OR drop_bit 4 (0 AND 0xF0)) AND 0x30)])"
    unfolding encodeWord_last_one
    using sextet_facts by (intro decodeWord_one sextet_or) blast+
  then show ?thesis by (simp only: regroup_byte0)
qed

lemma decode_encode_last_two:
  assumes "b1 AND 0x0F \<noteq> 0"
  shows "decodeWord (encodeWord [b0, b1, 0] True @ more) = (2, [b0, b1])"
proof -
  have "decodeWord (encodeWord [b0, b1, 0] True @ more) =
      (2, [push_bit 2 (drop_bit 2 (b0 AND 0xFC))
             OR drop_bit 4 ((push_bit 4 (b0 AND 0x03) OR drop_bit 4 (b1 AND 0xF0)) AND 0x30),
           push_bit 4 ((push_bit 4 (b0 AND 0x03) OR drop_bit 4 (b1 AND 0xF0)) AND 0x0f)
             OR drop_bit 2 ((push_bit 2 (b1 AND 0x0F) OR drop_bit 6 (0 AND 0xC0)) AND 0x3c)])"
    unfolding encodeWord_last_two if_not_P [OF assms]
    using sextet_facts by (intro decodeWord_two sextet_or) blast+
  then show ?thesis by (simp only: regroup_byte0 regroup_byte1)
qed

section \<open>The text the encoder produces\<close>

lemma drop_blocks:
  assumes "\<And>j. length (g j) = 4" "i \<le> q"
  shows "drop (4 * i) (concat (map g [0..<q]) @ fin) = concat (map g [i..<q]) @ fin"
  using assms(2)
proof (induction i)
  case 0
  then show ?case by simp
next
  case (Suc i)
  then have lt: "i < q" by simp
  have up: "[i..<q] = i # [Suc i..<q]" using lt by (rule upt_conv_Cons)
  have e: "4 * Suc i = 4 + 4 * i" by simp
  have "drop (4 * Suc i) (concat (map g [0..<q]) @ fin)
      = drop 4 (drop (4 * i) (concat (map g [0..<q]) @ fin))"
    by (simp only: drop_drop e)
  also have "\<dots> = drop 4 (concat (map g [i..<q]) @ fin)"
    using Suc.IH lt by (simp only: less_imp_le)
  also have "\<dots> = drop 4 (g i @ (concat (map g [Suc i..<q]) @ fin))"
    by (simp only: up list.map concat.simps append_assoc)
  also have "\<dots> = concat (map g [Suc i..<q]) @ fin"
    using assms(1) [of i] by simp
  finally show ?case .
qed

lemma take_three:
  assumes "3 * q + 3 \<le> length data"
  shows "take (3 * Suc q) data = take (3 * q) data @ [data ! (3 * q), data ! (3 * q + 1), data ! (3 * q + 2)]"
proof -
  have main: "take (Suc (Suc (Suc (3 * q)))) data
      = take (3 * q) data @ [data ! (3 * q), data ! Suc (3 * q), data ! Suc (Suc (3 * q))]"
    using assms by (simp add: take_Suc_conv_app_nth)
  have e: "3 * Suc q = Suc (Suc (Suc (3 * q)))" by simp
  have e1: "3 * q + 1 = Suc (3 * q)" by simp
  have e2: "3 * q + 2 = Suc (Suc (3 * q))" by simp
  show ?thesis unfolding e e1 e2 by (rule main)
qed

lemma concat_triples:
  assumes "\<And>i. i < k \<Longrightarrow> gb i = [data ! (3 * i), data ! (3 * i + 1), data ! (3 * i + 2)]"
    and "3 * k \<le> length data"
  shows "concat (map gb [0..<k]) = take (3 * k) data"
  using assms
proof (induction k)
  case 0
  then show ?case by simp
next
  case (Suc k)
  then have ih: "concat (map gb [0..<k]) = take (3 * k) data" by simp
  have last: "gb k = [data ! (3 * k), data ! (3 * k + 1), data ! (3 * k + 2)]"
    using Suc.prems(1) [of k] by simp
  have le: "3 * k + 3 \<le> length data" using Suc.prems(2) by simp
  have "concat (map gb [0..<Suc k]) = concat (map gb [0..<k]) @ gb k" by simp
  also have "\<dots> = take (3 * k) data @ [data ! (3 * k), data ! (3 * k + 1), data ! (3 * k + 2)]"
    by (simp only: ih last)
  also have "\<dots> = take (3 * Suc k) data" by (simp only: take_three [OF le])
  finally show ?case .
qed

lemma symbols_not_whitespace:
  "c \<in> set ITBase64AdditionsEncodingTable \<union> {of_char CHR ''=''} \<Longrightarrow> \<not> isWhiteSpace c"
proof -
  have "\<forall>c \<in> set ITBase64AdditionsEncodingTable \<union> {of_char CHR ''=''}. \<not> isWhiteSpace c"
    by (simp add: ITBase64AdditionsEncodingTable_def cstr_def isWhiteSpace_def)
  then show "c \<in> set ITBase64AdditionsEncodingTable \<union> {of_char CHR ''=''} \<Longrightarrow> \<not> isWhiteSpace c"
    by blast
qed

lemma symbols_kept:
  assumes "set str \<subseteq> set ITBase64AdditionsEncodingTable \<union> {of_char CHR ''=''}"
  shows "whiteSpaceFreeStringCreate str = str"
proof -
  have "\<forall>c \<in> set str. \<not> isWhiteSpace c" using assms symbols_not_whitespace by blast
  then show ?thesis by (simp add: whiteSpaceFreeStringCreate_filter)
qed

lemma take_one_drop: "n < length xs \<Longrightarrow> take 1 (drop n xs) = [xs ! n]"
  by (simp add: take_Suc_conv_app_nth)

lemma take_two_drop: "Suc n < length xs \<Longrightarrow> take 2 (drop n xs) = [xs ! n, xs ! Suc n]"
  by (simp add: take_Suc_conv_app_nth numeral_2_eq_2)

section \<open>Round trip\<close>

text \<open>
  The round trip holds for every buffer small enough for the two buffer sizes not to
  wrap around, but for the two kinds the encoder or the decoder mistreat: the empty
  buffer, and a buffer of \<open>3k + 2\<close> bytes whose last byte has a zero low nibble.
\<close>

lemma roundtrip_exact:
  assumes ne: "data \<noteq> []"
    and nib: "length data mod 3 = 2 \<Longrightarrow> last data AND 0x0F \<noteq> 0"
    and small: "12 * ((length data + 2) div 3) < 2 ^ 32"
  shows "roundtrip data = Returns (Some data, length data)"
proof -
  define q where "q = length data div 3"
  define r where "r = length data mod 3"
  define n where "n = 4 * ((length data + 2) div 3)"
  define g where "g = (\<lambda>j. encodeWord (drop (3 * j) data) False)"
  define fin where "fin = (if r \<noteq> 0
      then encodeWord (take r (drop (3 * q) data) @ replicate (3 - r) 0) True else [])"
  define str where "str = concat (map g [0..<q]) @ fin"
  let ?S = "set ITBase64AdditionsEncodingTable \<union> {of_char CHR ''=''}"
  have len: "length data = 3 * q + r" unfolding q_def r_def by simp
  have r3: "r < 3" unfolding r_def by simp
  have eff: "length data - r = 3 * q" using len by simp
  have g4: "length (g j) = 4" for j unfolding g_def by (rule encodeWord_length)
  from small have fits: "4 * ((length data + 2) div 3) < 2 ^ 32" by simp
  have "ITBase64EncodedStringCreate data =
      Returns (concat (map (\<lambda>j. encodeWord (drop (3 * j) data) False) [0..<length data div 3])
                  @ (if length data mod 3 \<noteq> 0
                     then encodeWord (take (length data mod 3)
                            (drop (length data - length data mod 3) data)
                            @ replicate (3 - length data mod 3) 0) True
                     else [])
                  @ [0],
                  4 * ((length data + 2) div 3))"
    by (rule encode_text [OF fits])
  then have enc: "ITBase64EncodedStringCreate data = Returns (str @ [0], n)"
    unfolding str_def fin_def g_def n_def
    by (simp only: q_def [symmetric] r_def [symmetric] eff append_assoc)
  have fin_len: "length fin = (if r \<noteq> 0 then 4 else 0)"
    unfolding fin_def by (simp only: encodeWord_length list.size if_distrib [of length])
  have blocks: "length (concat (map g [0..<q])) = 4 * q"
    using length_blocks [of g 0 q, OF g4] by simp
  have str_len: "length str = 4 * q + (if r \<noteq> 0 then 4 else 0)"
    unfolding str_def by (simp only: length_append blocks fin_len)
  have n_eq: "n = length str"
  proof (cases "r = 0")
    case True
    then have "length data mod 3 = 0" by (simp add: r_def)
    from third_exact [OF this] True show ?thesis by (simp add: n_def str_len q_def)
  next
    case False
    then have "length data mod 3 \<noteq> 0" by (simp add: r_def)
    from third_rest [OF this] False show ?thesis by (simp add: n_def str_len q_def)
  qed
  have rt: "roundtrip data = ITBase64DecodedDataCreate str"
    unfolding roundtrip_def enc n_eq by simp
  have g_sym: "set (g j) \<subseteq> ?S" for j unfolding g_def by (rule encodeWord_symbols)
  have fin_sym: "set fin \<subseteq> ?S"
  proof (cases "r = 0")
    case True
    then show ?thesis by (simp add: fin_def)
  next
    case False
    then have "fin = encodeWord (take r (drop (3 * q) data) @ replicate (3 - r) 0) True"
      by (simp add: fin_def)
    then show ?thesis by (simp only: encodeWord_symbols)
  qed
  have "set (concat (map g [0..<q])) \<subseteq> ?S" using g_sym by auto
  with fin_sym have "set str \<subseteq> ?S" unfolding str_def by simp
  then have ws: "whiteSpaceFreeStringCreate str = str" by (rule symbols_kept)
  from small have s: "3 * length (whiteSpaceFreeStringCreate str) < 2 ^ 32"
    unfolding ws n_eq [symmetric] n_def by simp
  have grp: "drop (4 * i) str = g i @ (concat (map g [Suc i..<q]) @ fin)" if "i < q" for i
  proof -
    from that have "i \<le> q" by simp
    then have "drop (4 * i) str = concat (map g [i..<q]) @ fin"
      unfolding str_def by (rule drop_blocks [of g, OF g4])
    then show ?thesis using upt_conv_Cons [OF that] by simp
  qed
  have word: "decodeWord (drop (4 * i) str)
      = (3, [data ! (3 * i), data ! (3 * i + 1), data ! (3 * i + 2)])" if "i < q" for i
  proof -
    from that len have le: "3 * i \<le> length data" by simp
    have "decodeWord (drop (4 * i) str) = (3, [drop (3 * i) data ! 0, drop (3 * i) data ! 1,
        drop (3 * i) data ! 2])"
      unfolding grp [OF that] g_def by (rule decode_encode_word)
    then show ?thesis using le by (simp only: nth_drop add_0_right)
  qed
  have gy: "\<forall>j<q. group_yield str j = 3"
    using word by (simp add: group_yield_def)
  have gb: "group_bytes str i = [data ! (3 * i), data ! (3 * i + 1), data ! (3 * i + 2)]"
    if "i < q" for i
    using word [OF that] by (simp add: group_bytes_def)
  have full: "concat (map (group_bytes str) [0..<q]) = take (3 * q) data"
    using gb len by (intro concat_triples) simp_all
  have last_grp: "drop (4 * q) str = fin"
    unfolding str_def using drop_blocks [of g q q fin, OF g4] by simp
  from r3 consider "r = 0" | "r = 1" | "r = 2" by linarith
  then have "ITBase64DecodedDataCreate str = Returns (Some data, length data)"
  proof cases
    case 1
    with len ne have q: "0 < q" by (cases q) simp_all
    from 1 str_len have l: "length (whiteSpaceFreeStringCreate str) = 4 * q" by (simp add: ws)
    from gy have y: "\<forall>j<q. group_yield (whiteSpaceFreeStringCreate str) j = 3" by (simp add: ws)
    from 1 len have "take (3 * q) data = data" by simp
    with decode_all_full [OF s l q y] full 1 len show ?thesis by (simp add: ws)
  next
    case 2
    with len have lt: "3 * q < length data" by simp
    from 2 have "fin = encodeWord (take 1 (drop (3 * q) data) @ replicate 2 0) True"
      by (simp add: fin_def)
    also have "\<dots> = encodeWord [data ! (3 * q), 0, 0] True"
    proof -
      have rp: "replicate 2 (0 :: u8) = [0, 0]" by (simp add: numeral_2_eq_2)
      show ?thesis by (simp only: take_one_drop [OF lt] rp append_Cons append_Nil)
    qed
    finally have f: "fin = encodeWord [data ! (3 * q), 0, 0] True" .
    have "decodeWord (drop (4 * q) str) = decodeWord (encodeWord [data ! (3 * q), 0, 0] True @ [])"
      by (simp only: last_grp f append_Nil2)
    also have "\<dots> = (1, [data ! (3 * q)])" by (rule decode_encode_last_one)
    finally have w: "decodeWord (drop (4 * q) str) = (1, [data ! (3 * q)])" .
    from 2 str_len have m: "length (whiteSpaceFreeStringCreate str) mod 4 = 0"
      and k: "4 * q < length (whiteSpaceFreeStringCreate str)" by (simp_all add: ws)
    from gy have y: "\<forall>j<q. group_yield (whiteSpaceFreeStringCreate str) j = 3" by (simp add: ws)
    from w have p: "group_yield (whiteSpaceFreeStringCreate str) q = 1
        \<or> group_yield (whiteSpaceFreeStringCreate str) q = 2" by (simp add: ws group_yield_def)
    from 2 len lt have "take (3 * q) data @ [data ! (3 * q)] = data"
      by (simp flip: take_Suc_conv_app_nth)
    with decode_first_short_padded [OF s m k y p] full w 2 len show ?thesis
      by (simp add: ws group_yield_def group_bytes_def)
  next
    case 3
    with len have lt: "Suc (3 * q) < length data" by simp
    from 3 len ne have "last data = data ! Suc (3 * q)" by (simp add: last_conv_nth)
    with nib 3 have nz: "data ! Suc (3 * q) AND 0x0F \<noteq> 0" by (simp add: r_def)
    from 3 have "fin = encodeWord (take 2 (drop (3 * q) data) @ replicate 1 0) True"
      by (simp add: fin_def)
    also have "\<dots> = encodeWord [data ! (3 * q), data ! Suc (3 * q), 0] True"
    proof -
      have rp: "replicate 1 (0 :: u8) = [0]" by simp
      show ?thesis by (simp only: take_two_drop [OF lt] rp append_Cons append_Nil)
    qed
    finally have f: "fin = encodeWord [data ! (3 * q), data ! Suc (3 * q), 0] True" .
    have "decodeWord (drop (4 * q) str)
        = decodeWord (encodeWord [data ! (3 * q), data ! Suc (3 * q), 0] True @ [])"
      by (simp only: last_grp f append_Nil2)
    also have "\<dots> = (2, [data ! (3 * q), data ! Suc (3 * q)])"
      by (rule decode_encode_last_two [OF nz])
    finally have w: "decodeWord (drop (4 * q) str) = (2, [data ! (3 * q), data ! Suc (3 * q)])" .
    from 3 str_len have m: "length (whiteSpaceFreeStringCreate str) mod 4 = 0"
      and k: "4 * q < length (whiteSpaceFreeStringCreate str)" by (simp_all add: ws)
    from gy have y: "\<forall>j<q. group_yield (whiteSpaceFreeStringCreate str) j = 3" by (simp add: ws)
    from w have p: "group_yield (whiteSpaceFreeStringCreate str) q = 1
        \<or> group_yield (whiteSpaceFreeStringCreate str) q = 2" by (simp add: ws group_yield_def)
    have "take (Suc (Suc (3 * q))) data
        = take (3 * q) data @ [data ! (3 * q), data ! Suc (3 * q)]"
      using lt by (simp add: take_Suc_conv_app_nth)
    moreover from 3 len have "take (Suc (Suc (3 * q))) data = data" by simp
    ultimately have "take (3 * q) data @ [data ! (3 * q), data ! Suc (3 * q)] = data"
      by simp
    with decode_first_short_padded [OF s m k y p] full w 3 len show ?thesis
      by (simp add: ws group_yield_def group_bytes_def)
  qed
  with rt show ?thesis by simp
qed

text \<open>
  Claim C1. Decoding an encoded buffer does not always give the buffer back. The two
  bytes \<^verbatim>\<open>4D 60\<close> are encoded as \<^verbatim>\<open>"TW=="\<close>, which decodes to the single byte
  \<^verbatim>\<open>4D\<close>; and the empty buffer is encoded as the empty text, which the decoder
  answers with \<^verbatim>\<open>NULL\<close>.
\<close>

theorem roundtrip_loses_byte:
  "ITBase64EncodedStringCreate [0x4D, 0x60] = Returns (cstr ''TW=='' @ [0], 4)
   \<and> roundtrip [0x4D, 0x60] = Returns (Some [0x4D], 1)
   \<and> roundtrip [0x4D, 0x60] \<noteq> Returns (Some [0x4D, 0x60], 2)
   \<and> roundtrip [] = Returns (None, 0)"
  by (simp add: codec_defs)

end
